theory Spec2Isabelle
  imports Main "HOL-Library.List_Lexorder"
begin

section \<open>JavaScript strings\<close>

text \<open>
  A JavaScript string is a sequence of UTF-16 code units. The regular expressions of the
  analyzer carry no \<^verbatim>\<open>u\<close> flag, so they work on single code units; a code unit is
  modelled as a natural number and a string as a list of them. \<open>js\<close> turns an Isabelle
  string literal into such a string.
\<close>

type_synonym cu = nat
type_synonym jstring = "cu list"

definition js :: "string \<Rightarrow> jstring" where
  "js s = map of_char s"

section \<open>Per-file results and the project summary (index.js)\<close>

record FileResult =
  filePath :: jstring
  fileName :: jstring
  totalLines :: nat
  codeLines :: nat
  lines :: nat
  contentHash :: jstring
  functionCount :: nat
  functionNames :: "jstring list"
  dependencies :: "jstring list"
  complexity :: nat

text \<open>The two switches of the configuration that \<open>buildSummary\<close> and \<open>analyzeFile\<close> read.\<close>

record config =
  cfg_complexity :: bool
  cfg_functions :: bool

text \<open>
  The summary object. A field that the source sets to \<^verbatim>\<open>null\<close> is \<open>None\<close> here.
  (\<open>summaryLines\<close> is the source's \<^verbatim>\<open>totalLines\<close> of the summary; the name is taken by
  the per-file record.)
\<close>

record summary =
  totalFiles :: nat
  summaryLines :: nat
  totalFunctions :: "nat option"
  totalComplexity :: "nat option"
  complexityLevel :: "string option"

text \<open>\<^verbatim>\<open>results.reduce((sum, r) => sum + f(r), 0)\<close>\<close>

definition reduce_sum :: "('a \<Rightarrow> nat) \<Rightarrow> 'a list \<Rightarrow> nat" where
  "reduce_sum f rs = foldl (\<lambda>s r. s + f r) 0 rs"

definition classify :: "nat option \<Rightarrow> string option" where
  "classify tc =
     (case tc of
        None \<Rightarrow> None
      | Some c \<Rightarrow>
          if c \<le> 500 then Some ''Low''
          else if c \<le> 1500 then Some ''Medium''
          else if c \<le> 3000 then Some ''High''
          else Some ''Very High'')"

definition buildSummary :: "FileResult list \<Rightarrow> config \<Rightarrow> summary" where
  "buildSummary results cfg =
     (let totalLines' = reduce_sum lines results;
          totalFiles' = length results;
          totalFunctions' =
            (if cfg_functions cfg then Some (reduce_sum functionCount results) else None);
          totalComplexity' =
            (if cfg_complexity cfg then Some (reduce_sum complexity results) else None);
          complexityLevel' = classify totalComplexity'
      in \<lparr> totalFiles = totalFiles', summaryLines = totalLines',
           totalFunctions = totalFunctions', totalComplexity = totalComplexity',
           complexityLevel = complexityLevel' \<rparr>)"

section \<open>Regular expressions as the engine runs them\<close>

text \<open>
  The analyzer is built from regular expressions, so the model carries a small backtracking
  matcher with the ECMAScript priorities: alternatives left to right, greedy quantifiers
  longest first, lazy ones shortest first, an iteration that consumes nothing is rejected.
  Only the constructs that occur in the source are present. \<open>Eol\<close> is \<^verbatim>\<open>$\<close> under the
  \<^verbatim>\<open>m\<close> flag, \<open>Grp\<close> is capture group 1 (no pattern of the source has a second one).
\<close>

definition is_space :: "cu \<Rightarrow> bool" where
  "is_space c \<longleftrightarrow>
     c = 9 \<or> c = 10 \<or> c = 11 \<or> c = 12 \<or> c = 13 \<or> c = 32 \<or> c = 160 \<or> c = 5760 \<or>
     (8192 \<le> c \<and> c \<le> 8202) \<or> c = 8232 \<or> c = 8233 \<or> c = 8239 \<or> c = 8287 \<or>
     c = 12288 \<or> c = 65279"

definition is_word :: "cu \<Rightarrow> bool" where
  "is_word c \<longleftrightarrow>
     (97 \<le> c \<and> c \<le> 122) \<or> (65 \<le> c \<and> c \<le> 90) \<or> (48 \<le> c \<and> c \<le> 57) \<or> c = 95"

definition is_line_terminator :: "cu \<Rightarrow> bool" where
  "is_line_terminator c \<longleftrightarrow> c = 10 \<or> c = 13 \<or> c = 8232 \<or> c = 8233"

datatype rx =
    Eps
  | Chr cu
  | Cls "cu \<Rightarrow> bool"
  | WordB
  | Eol
  | Seq rx rx
  | Alt rx rx
  | Star rx
  | LazyStar rx
  | Grp rx

text \<open>
  A matcher state: the code unit before the current position (None at the start of the
  input), the input still to read, and the text captured by group 1.
\<close>

type_synonym mstate = "cu option \<times> jstring \<times> jstring option"

definition rest :: "mstate \<Rightarrow> jstring" where
  "rest s = fst (snd s)"

definition word_before :: "cu option \<Rightarrow> bool" where
  "word_before p = (case p of None \<Rightarrow> False | Some c \<Rightarrow> is_word c)"

definition word_after :: "jstring \<Rightarrow> bool" where
  "word_after r = (case r of [] \<Rightarrow> False | c # _ \<Rightarrow> is_word c)"

text \<open>All the ways the expression matches at a state, in the order backtracking tries them.\<close>

function ms :: "rx \<Rightarrow> mstate \<Rightarrow> mstate list" where
  "ms Eps s = [s]"
| "ms (Chr c) (p, r, k) = (case r of [] \<Rightarrow> [] | x # xs \<Rightarrow> if x = c then [(Some x, xs, k)] else [])"
| "ms (Cls P) (p, r, k) = (case r of [] \<Rightarrow> [] | x # xs \<Rightarrow> if P x then [(Some x, xs, k)] else [])"
| "ms WordB (p, r, k) = (if word_before p \<noteq> word_after r then [(p, r, k)] else [])"
| "ms Eol (p, r, k) = (case r of [] \<Rightarrow> [(p, r, k)] | x # _ \<Rightarrow> if is_line_terminator x then [(p, r, k)] else [])"
| "ms (Seq a b) s = concat (map (ms b) (ms a s))"
| "ms (Alt a b) s = ms a s @ ms b s"
| "ms (Star a) s =
     concat (map (ms (Star a)) (filter (\<lambda>s'. length (rest s') < length (rest s)) (ms a s))) @ [s]"
| "ms (LazyStar a) s =
     s # concat (map (ms (LazyStar a)) (filter (\<lambda>s'. length (rest s') < length (rest s)) (ms a s)))"
| "ms (Grp a) (p, r, k) =
     map (\<lambda>(p', r', _). (p', r', Some (take (length r - length r') r))) (ms a (p, r, k))"
  by pat_completeness auto
termination
  by (relation "measure size <*lex*> measure (\<lambda>s. length (rest s))") auto

definition rx_plus :: "rx \<Rightarrow> rx" where
  "rx_plus a = Seq a (Star a)"

definition rx_opt :: "rx \<Rightarrow> rx" where
  "rx_opt a = Alt a Eps"

definition seqs :: "rx list \<Rightarrow> rx" where
  "seqs rs = foldr Seq rs Eps"

definition lit :: "string \<Rightarrow> rx" where
  "lit w = seqs (map (\<lambda>c. Chr (of_char c)) w)"

text \<open>One attempt at one position: the first way to match, if there is one.\<close>

definition exec_at :: "rx \<Rightarrow> cu option \<Rightarrow> jstring \<Rightarrow> mstate option" where
  "exec_at a p s = (case ms a (p, s, None) of [] \<Rightarrow> None | m # _ \<Rightarrow> Some m)"

text \<open>
  A global (\<^verbatim>\<open>g\<close>) expression run over a whole string cuts it into matches and the code
  units between them: after a match the search goes on where the match ended, after an
  empty match and after a failure one code unit further.
\<close>

datatype seg = Skip cu | Hit jstring "jstring option"

function segs :: "rx \<Rightarrow> cu option \<Rightarrow> jstring \<Rightarrow> seg list" where
  "segs a p s =
     (case exec_at a p s of
        Some (p', s', k) \<Rightarrow>
          if length s' < length s then Hit (take (length s - length s') s) k # segs a p' s'
          else Hit [] k # (case s of [] \<Rightarrow> [] | c # cs \<Rightarrow> Skip c # segs a (Some c) cs)
      | None \<Rightarrow> (case s of [] \<Rightarrow> [] | c # cs \<Rightarrow> Skip c # segs a (Some c) cs))"
  by pat_completeness auto
termination
  by (relation "measure (\<lambda>(a, p, s). length s)") auto

fun hit_text :: "seg \<Rightarrow> jstring list" where
  "hit_text (Skip c) = []"
| "hit_text (Hit m k) = [m]"

fun hit_group :: "seg \<Rightarrow> jstring list" where
  "hit_group (Skip c) = []"
| "hit_group (Hit m k) = (case k of None \<Rightarrow> [] | Some g \<Rightarrow> [g])"

text \<open>\<^verbatim>\<open>str.match(re)\<close> for a global expression: null when nothing matches.\<close>

definition match_g :: "rx \<Rightarrow> jstring \<Rightarrow> jstring list option" where
  "match_g a s = (case concat (map hit_text (segs a None s)) of [] \<Rightarrow> None | m # ms' \<Rightarrow> Some (m # ms'))"

text \<open>
  \<^verbatim>\<open>str.matchAll(re)\<close>, read at \<^verbatim>\<open>match[1]\<close>. (In every expression of the source that
  has a group, the group takes part in every match.)
\<close>

definition matchAll1 :: "rx \<Rightarrow> jstring \<Rightarrow> jstring list" where
  "matchAll1 a s = concat (map hit_group (segs a None s))"

text \<open>\<^verbatim>\<open>str.replace(re, rep)\<close> for a global expression and a replacement without \<^verbatim>\<open>$\<close>.\<close>

fun seg_out :: "jstring \<Rightarrow> seg \<Rightarrow> jstring" where
  "seg_out rep (Skip c) = [c]"
| "seg_out rep (Hit m k) = rep"

definition replace_g :: "rx \<Rightarrow> jstring \<Rightarrow> jstring \<Rightarrow> jstring" where
  "replace_g a rep s = concat (map (seg_out rep) (segs a None s))"

section \<open>The file analyzer (analyzers/file-analyzer.js)\<close>

abbreviation (input) sp :: rx where
  "sp \<equiv> Cls is_space"

abbreviation (input) wd :: rx where
  "wd \<equiv> Cls is_word"

text \<open>
  The thirteen entries of \<^verbatim>\<open>COMPLEXITY_TOKENS\<close>, named after what they look for, and the
  array in the order of the source. 40 is the opening parenthesis, 123 the opening brace,
  63 the question mark and 46 the full stop. In the source they read
  \<^verbatim>\<open>/\bif\s*\(/g\<close>,
  \<^verbatim>\<open>/\belse\s+if\s*\(/g\<close>,
  \<^verbatim>\<open>/\bfor\s*\(/g\<close>,
  \<^verbatim>\<open>/\bfor\s+(?:const|let|var)\s+\w+\s+(?:of|in)\b/g\<close>,
  \<^verbatim>\<open>/\bwhile\s*\(/g\<close>,
  \<^verbatim>\<open>/\bdo\s*\{/g\<close>,
  \<^verbatim>\<open>/\bcase\s+/g\<close>,
  \<^verbatim>\<open>/\bcatch\s*\(/g\<close>,
  \<^verbatim>\<open>/\?\?/g\<close>,
  \<^verbatim>\<open>/\?\./g\<close>,
  \<^verbatim>\<open>/&&/g\<close>,
  \<^verbatim>\<open>/\|\|/g\<close> and
  \<^verbatim>\<open>/\?[^?.]/g\<close>.
  (\<^verbatim>\<open>FUNCTION_PATTERNS\<close> is declared in the source and read by no function; it has no
  counterpart here.)
\<close>

definition tok_if :: rx where
  "tok_if = seqs [WordB, lit ''if'', Star sp, Chr 40]"

definition tok_else_if :: rx where
  "tok_else_if = seqs [WordB, lit ''else'', rx_plus sp, lit ''if'', Star sp, Chr 40]"

definition tok_for :: rx where
  "tok_for = seqs [WordB, lit ''for'', Star sp, Chr 40]"

definition tok_for_of :: rx where
  "tok_for_of =
     seqs [WordB, lit ''for'', rx_plus sp, Alt (lit ''const'') (Alt (lit ''let'') (lit ''var'')),
           rx_plus sp, rx_plus wd, rx_plus sp, Alt (lit ''of'') (lit ''in''), WordB]"

definition tok_while :: rx where
  "tok_while = seqs [WordB, lit ''while'', Star sp, Chr 40]"

definition tok_do :: rx where
  "tok_do = seqs [WordB, lit ''do'', Star sp, Chr 123]"

definition tok_case :: rx where
  "tok_case = seqs [WordB, lit ''case'', rx_plus sp]"

definition tok_catch :: rx where
  "tok_catch = seqs [WordB, lit ''catch'', Star sp, Chr 40]"

definition tok_nullish :: rx where
  "tok_nullish = lit ''??''"

definition tok_optional :: rx where
  "tok_optional = lit ''?.''"

definition tok_and :: rx where
  "tok_and = lit ''&&''"

definition tok_or :: rx where
  "tok_or = lit ''||''"

definition tok_ternary :: rx where
  "tok_ternary = seqs [Chr 63, Cls (\<lambda>c. c \<noteq> 63 \<and> c \<noteq> 46)]"

definition COMPLEXITY_TOKENS :: "rx list" where
  "COMPLEXITY_TOKENS =
    [tok_if, tok_else_if, tok_for, tok_for_of, tok_while, tok_do, tok_case, tok_catch,
     tok_nullish, tok_optional, tok_and, tok_or, tok_ternary]"

text \<open>
  \<^verbatim>\<open>IMPORT_REGEX\<close>; 39 and 34 are the single and the double quote, 123 and 125 the
  braces, 42 the asterisk and 44 the comma. \<open>import_binding\<close> is the group
  \<^verbatim>\<open>(?:{[^}]*}|\*\s+as\s+\w+|\w+)\<close>, which the source writes out twice; the whole is
  \<^verbatim>\<open>import\s+(?:(?:type\s+)?B(?:\s*,\s*B)*\s+from\s+)?['"]([^'"]+)['"]\<close> with that group
  for \<^verbatim>\<open>B\<close>.
\<close>

definition import_binding :: rx where
  "import_binding =
     Alt (seqs [Chr 123, Star (Cls (\<lambda>c. c \<noteq> 125)), Chr 125])
      (Alt (seqs [Chr 42, rx_plus sp, lit ''as'', rx_plus sp, rx_plus wd])
           (rx_plus wd))"

definition IMPORT_REGEX :: rx where
  "IMPORT_REGEX =
     seqs [lit ''import'', rx_plus sp,
           rx_opt (seqs [rx_opt (seqs [lit ''type'', rx_plus sp]),
                      import_binding,
                      Star (seqs [Star sp, Chr 44, Star sp, import_binding]),
                      rx_plus sp, lit ''from'', rx_plus sp]),
           Cls (\<lambda>c. c = 39 \<or> c = 34),
           Grp (rx_plus (Cls (\<lambda>c. \<not> (c = 39 \<or> c = 34)))),
           Cls (\<lambda>c. c = 39 \<or> c = 34)]"

text \<open>
  The five passes of \<open>stripCommentsAndStrings\<close>, in the source
  \<^verbatim>\<open>/`[^`]*`/gs\<close>, \<^verbatim>\<open>/\/\*[\s\S]*?\*\//g\<close>, \<^verbatim>\<open>/\/\/.*$/gm\<close>,
  \<^verbatim>\<open>/'[^']*'/g\<close> and \<^verbatim>\<open>/"[^"]*"/g\<close>; 96 is the backtick. The first, fourth and
  fifth put two double quotes in place of a match, the second and third put nothing.
\<close>

definition rx_template :: rx where
  "rx_template = seqs [Chr 96, Star (Cls (\<lambda>c. c \<noteq> 96)), Chr 96]"

definition rx_block_comment :: rx where
  "rx_block_comment = seqs [lit ''/*'', LazyStar (Cls (\<lambda>c. is_space c \<or> \<not> is_space c)), lit ''*/'']"

definition rx_line_comment :: rx where
  "rx_line_comment = seqs [lit ''//'', Star (Cls (\<lambda>c. \<not> is_line_terminator c)), Eol]"

definition rx_single_quoted :: rx where
  "rx_single_quoted = seqs [Chr 39, Star (Cls (\<lambda>c. c \<noteq> 39)), Chr 39]"

definition rx_double_quoted :: rx where
  "rx_double_quoted = seqs [Chr 34, Star (Cls (\<lambda>c. c \<noteq> 34)), Chr 34]"

definition stripCommentsAndStrings :: "jstring \<Rightarrow> jstring" where
  "stripCommentsAndStrings code =
     replace_g rx_double_quoted [34, 34]
       (replace_g rx_single_quoted [34, 34]
         (replace_g rx_line_comment []
           (replace_g rx_block_comment []
             (replace_g rx_template [34, 34] code))))"

text \<open>A \<^verbatim>\<open>Set\<close> keeps its elements in insertion order; adding a member again changes nothing.\<close>

definition set_add :: "jstring list \<Rightarrow> jstring \<Rightarrow> jstring list" where
  "set_add found x = (if x \<in> set found then found else found @ [x])"

text \<open>
  The three expressions of \<open>extractFunctions\<close>:
  \<^verbatim>\<open>/\bfunction\s+(\w+)/g\<close>,
  \<^verbatim>\<open>/\b(?:const|let|var)\s+(\w+)\s*=\s*(?:async\s+)?(?:\([^)]*\)|[a-zA-Z_$]\w*)\s*=>/g\<close>
  and \<^verbatim>\<open>/\bclass\s+(\w+)/g\<close>. 61 is the equals sign, 40 and 41 are the parentheses,
  36 is the dollar sign.
\<close>

definition rx_function :: rx where
  "rx_function = seqs [WordB, lit ''function'', rx_plus sp, Grp (rx_plus wd)]"

definition rx_arrow :: rx where
  "rx_arrow =
     seqs [WordB, Alt (lit ''const'') (Alt (lit ''let'') (lit ''var'')), rx_plus sp, Grp (rx_plus wd),
           Star sp, Chr 61, Star sp,
           rx_opt (seqs [lit ''async'', rx_plus sp]),
           Alt (seqs [Chr 40, Star (Cls (\<lambda>c. c \<noteq> 41)), Chr 41])
               (seqs [Cls (\<lambda>c. (97 \<le> c \<and> c \<le> 122) \<or> (65 \<le> c \<and> c \<le> 90) \<or> c = 95 \<or> c = 36),
                      Star wd]),
           Star sp, lit ''=>'']"

definition rx_class :: rx where
  "rx_class = seqs [WordB, lit ''class'', rx_plus sp, Grp (rx_plus wd)]"

definition extractFunctions :: "jstring \<Rightarrow> jstring list" where
  "extractFunctions stripped =
     (let found = foldl set_add [] (matchAll1 rx_function stripped);
          found = foldl set_add found (matchAll1 rx_arrow stripped);
          found = foldl set_add found (matchAll1 rx_class stripped)
      in found)"

definition calculateComplexity :: "jstring \<Rightarrow> nat" where
  "calculateComplexity stripped =
     foldl (\<lambda>complexity pattern.
              case match_g pattern stripped of
                None \<Rightarrow> complexity
              | Some matches \<Rightarrow> complexity + length matches)
           1 COMPLEXITY_TOKENS"

text \<open>What one pattern adds to the score: the number of its matches, nothing when there is none.\<close>

definition count_matches :: "rx \<Rightarrow> jstring \<Rightarrow> nat" where
  "count_matches pattern stripped =
     (case match_g pattern stripped of None \<Rightarrow> 0 | Some matches \<Rightarrow> length matches)"

definition EXCLUDED :: "jstring set" where
  "EXCLUDED = {js ''react'', js ''react-dom'', js ''react-redux'', js ''react-router'',
               js ''react-router-dom''}"

text \<open>
  \<^verbatim>\<open>[...deps].sort()\<close> orders strings by their code units, which is the lexicographic
  order of the lists.
\<close>

definition extractDependencies :: "jstring \<Rightarrow> jstring list" where
  "extractDependencies content =
     (let deps = foldl (\<lambda>deps specifier. if specifier \<notin> EXCLUDED then set_add deps specifier else deps)
                   [] (matchAll1 IMPORT_REGEX content)
      in sort deps)"

text \<open>\<^verbatim>\<open>content.split('\n')\<close>, \<^verbatim>\<open>line.trim()\<close> and \<^verbatim>\<open>s.startsWith(p)\<close>.\<close>

fun split_on :: "cu \<Rightarrow> jstring \<Rightarrow> jstring list" where
  "split_on d [] = [[]]"
| "split_on d (c # cs) =
     (if c = d then [] # split_on d cs
      else (case split_on d cs of [] \<Rightarrow> [[c]] | l # ls \<Rightarrow> (c # l) # ls))"

definition trim :: "jstring \<Rightarrow> jstring" where
  "trim s = rev (dropWhile is_space (rev (dropWhile is_space s)))"

definition startsWith :: "jstring \<Rightarrow> jstring \<Rightarrow> bool" where
  "startsWith s p = (take (length p) s = p)"

text \<open>
  What \<open>analyzeFile\<close> takes from outside: reading a file (None when the read throws),
  \<^verbatim>\<open>path.basename\<close> and the SHA-256 hex digest.
\<close>

record env =
  readFileSync :: "jstring \<Rightarrow> jstring option"
  basename :: "jstring \<Rightarrow> jstring"
  sha256hex :: "jstring \<Rightarrow> jstring"

datatype error = ReadError

definition analyzeFile :: "env \<Rightarrow> jstring \<Rightarrow> config \<Rightarrow> error + FileResult" where
  "analyzeFile e path opts =
     (case readFileSync e path of
        None \<Rightarrow> Inl ReadError
      | Some content \<Rightarrow>
          let fileName' = basename e path;
              stripped = stripCommentsAndStrings content;
              lines' = split_on 10 content;
              totalLines' = length lines';
              codeLines' = length (filter (\<lambda>line.
                  let trimmed = trim line
                  in length trimmed > 0 \<and> \<not> startsWith trimmed (js ''//'')
                     \<and> \<not> startsWith trimmed (js ''*'')) lines');
              contentHash' = sha256hex e content;
              found = (if cfg_functions opts then extractFunctions stripped else []);
              functionCount' = length found;
              dependencies' = extractDependencies content;
              complexityScore = (if cfg_complexity opts then calculateComplexity stripped else 0)
          in Inr \<lparr> filePath = path, fileName = fileName', totalLines = totalLines',
                   codeLines = codeLines', lines = totalLines', contentHash = contentHash',
                   functionCount = functionCount', functionNames = found,
                   dependencies = dependencies', complexity = complexityScore \<rparr>)"

section \<open>Duplicate detection (analyzers/duplicates.js)\<close>

record DuplicateGroup =
  hash :: jstring
  files :: "jstring list"

text \<open>
  The \<^verbatim>\<open>Map\<close> of the source iterates in insertion order, so it is an association list
  with one entry per key, a new key going to the end.
\<close>

type_synonym hashMap = "(jstring \<times> jstring list) list"

definition map_has :: "hashMap \<Rightarrow> jstring \<Rightarrow> bool" where
  "map_has m k = (map_of m k \<noteq> None)"

fun map_set :: "hashMap \<Rightarrow> jstring \<Rightarrow> jstring list \<Rightarrow> hashMap" where
  "map_set [] k v = [(k, v)]"
| "map_set ((k', v') # m) k v = (if k' = k then (k, v) # m else (k', v') # map_set m k v)"

text \<open>\<^verbatim>\<open>hashMap.get(k).push(p)\<close>: the array stored under \<open>k\<close> grows by one path.\<close>

fun map_push :: "hashMap \<Rightarrow> jstring \<Rightarrow> jstring \<Rightarrow> hashMap" where
  "map_push [] k p = []"
| "map_push ((k', v') # m) k p = (if k' = k then (k', v' @ [p]) # m else (k', v') # map_push m k p)"

definition group_step :: "hashMap \<Rightarrow> FileResult \<Rightarrow> hashMap" where
  "group_step m r =
     (let m' = (if \<not> map_has m (contentHash r) then map_set m (contentHash r) [] else m)
      in map_push m' (contentHash r) (filePath r))"

definition findDuplicates :: "FileResult list \<Rightarrow> DuplicateGroup list" where
  "findDuplicates results =
     (let hashMap = foldl group_step [] results
      in map (\<lambda>(h, fs). \<lparr> hash = h, files = fs \<rparr>)
           (filter (\<lambda>(h, fs). length fs > 1) hashMap))"

text \<open>The paths of the results that carry a given hash, in input order.\<close>

definition paths_with :: "jstring \<Rightarrow> FileResult list \<Rightarrow> jstring list" where
  "paths_with h rs = map filePath (filter (\<lambda>r. contentHash r = h) rs)"

text \<open>
  The loop invariant of the grouping loop: after the results \<open>rs\<close> the map has one entry
  per hash seen, holding the paths of that hash in input order.
\<close>

definition grouped :: "hashMap \<Rightarrow> FileResult list \<Rightarrow> bool" where
  "grouped m rs \<longleftrightarrow>
     distinct (map fst m) \<and>
     (\<forall>h. map_of m h = (if paths_with h rs = [] then None else Some (paths_with h rs)))"

text \<open>
  A result record as the test-suite builds them for the grouper and the aggregator: a path,
  a hash, and the three numbers the summary adds up.
\<close>

definition fakeResult :: "string \<Rightarrow> string \<Rightarrow> nat \<Rightarrow> nat \<Rightarrow> nat \<Rightarrow> FileResult" where
  "fakeResult p h l f c =
     \<lparr> filePath = js p, fileName = [], totalLines = l, codeLines = l, lines = l,
       contentHash = js h, functionCount = f, functionNames = [], dependencies = [],
       complexity = c \<rparr>"

section \<open>Notions for the statements and the proofs\<close>

text \<open>
  The same count for a scan that starts in the middle of a text, after the code unit \<open>p\<close>;
  and the code unit that precedes the position reached after reading \<open>w\<close>.
\<close>

definition cnt :: "rx \<Rightarrow> cu option \<Rightarrow> jstring \<Rightarrow> nat" where
  "cnt a p s = length (concat (map hit_text (segs a p s)))"

definition prev_after :: "cu option \<Rightarrow> jstring \<Rightarrow> cu option" where
  "prev_after p w = (if w = [] then p else Some (last w))"

text \<open>
  Three shapes that twelve of the thirteen patterns have, with the keyword and the closing
  character as parameters: a keyword, optional white space and a closing character
  (\<^verbatim>\<open>\bif\s*\(\<close>); a keyword and white space (\<^verbatim>\<open>\bcase\s+\<close>); two keywords
  separated by white space, then optional white space and a closing character
  (\<^verbatim>\<open>\belse\s+if\s*\(\<close>).
\<close>

definition kw_tok :: "jstring \<Rightarrow> cu \<Rightarrow> rx" where
  "kw_tok w c = Seq WordB (Seq (foldr Seq (map Chr w) Eps) (Seq (Star (Cls is_space)) (Seq (Chr c) Eps)))"

definition kw_sp :: "jstring \<Rightarrow> rx" where
  "kw_sp w = Seq WordB (Seq (foldr Seq (map Chr w) Eps)
               (Seq (Seq (Cls is_space) (Star (Cls is_space))) Eps))"

definition kw2_tok :: "jstring \<Rightarrow> jstring \<Rightarrow> cu \<Rightarrow> rx" where
  "kw2_tok w1 w2 c =
     Seq WordB (Seq (foldr Seq (map Chr w1) Eps)
       (Seq (Seq (Cls is_space) (Star (Cls is_space)))
         (Seq (foldr Seq (map Chr w2) Eps)
           (Seq (Star (Cls is_space)) (Seq (Chr c) Eps)))))"


definition map_state :: "(cu \<Rightarrow> cu) \<Rightarrow> mstate \<Rightarrow> mstate" where
  "map_state g s = (map_option g (fst s), map g (fst (snd s)), map_option (map g) (snd (snd s)))"



text \<open>
  An expression starts with the code unit \<open>f\<close> when it fails at the end of the input and
  wherever the next code unit is not \<open>f\<close>, and never looks at the code unit before the
  position. \<open>quoted q\<close> is the shape of
  the three literal patterns of the normalizer, \<^verbatim>\<open>q[^q]*q\<close>. A text is clean when it holds
  no quote, no backtick and no slash: nothing in it can start a literal or a comment.
\<close>

definition starts :: "cu \<Rightarrow> rx \<Rightarrow> bool" where
  "starts f a \<longleftrightarrow>
     (\<forall>q. exec_at a q [] = None) \<and>
     (\<forall>q x xs. x \<noteq> f \<longrightarrow> exec_at a q (x # xs) = None) \<and>
     (\<forall>p q s. exec_at a p s = exec_at a q s)"

definition quoted :: "cu \<Rightarrow> rx" where
  "quoted q = Seq (Chr q) (Seq (Star (Cls (\<lambda>c. c \<noteq> q))) (Seq (Chr q) Eps))"

definition clean :: "jstring \<Rightarrow> bool" where
  "clean w \<longleftrightarrow> 34 \<notin> set w \<and> 39 \<notin> set w \<and> 47 \<notin> set w \<and> 96 \<notin> set w"

section \<open>Facts about the summary\<close>

lemma reduce_sum_eq: "reduce_sum f rs = sum_list (map f rs)"
proof -
  have "foldl (\<lambda>s r. s + f r) a rs = a + sum_list (map f rs)" for a
    by (induction rs arbitrary: a) simp_all
  from this [of 0] show ?thesis by (simp add: reduce_sum_def)
qed

lemma analyzeFile_lines: "analyzeFile e path opts = Inr r \<Longrightarrow> lines r = totalLines r"
  by (auto simp: analyzeFile_def Let_def split: option.splits)


lemma buildSummary_fields:
  "totalFiles (buildSummary rs cfg) = length rs"
  "summaryLines (buildSummary rs cfg) = sum_list (map lines rs)"
  "totalFunctions (buildSummary rs cfg) =
     (if cfg_functions cfg then Some (sum_list (map functionCount rs)) else None)"
  "totalComplexity (buildSummary rs cfg) =
     (if cfg_complexity cfg then Some (sum_list (map complexity rs)) else None)"
  "complexityLevel (buildSummary rs cfg) =
     classify (if cfg_complexity cfg then Some (sum_list (map complexity rs)) else None)"
  by (simp_all add: buildSummary_def Let_def reduce_sum_eq)

text \<open>
  C2. With complexity analysis enabled, the level is chosen from the summed complexity
  by inclusive upper bounds: up to 500 is Low, 501 to 1500 is Medium, 1501 to 3000 is High,
  anything larger is Very High.
\<close>

theorem complexity_level_bands:
  assumes "cfg_complexity cfg" and "sum_list (map complexity rs) = c"
  shows "(c \<le> 500 \<longrightarrow> complexityLevel (buildSummary rs cfg) = Some ''Low'')
       \<and> (501 \<le> c \<and> c \<le> 1500 \<longrightarrow> complexityLevel (buildSummary rs cfg) = Some ''Medium'')
       \<and> (1501 \<le> c \<and> c \<le> 3000 \<longrightarrow> complexityLevel (buildSummary rs cfg) = Some ''High'')
       \<and> (3000 < c \<longrightarrow> complexityLevel (buildSummary rs cfg) = Some ''Very High'')"
  using assms by (simp add: buildSummary_fields classify_def)

text \<open>The scenario of the specification: a project whose complexities add up to 1200.\<close>

theorem complexity_level_bands_witness:
  "cfg_complexity \<lparr> cfg_complexity = True, cfg_functions = False \<rparr>
   \<and> sum_list (map complexity
         [fakeResult ''/a.ts'' ''aaa'' 10 1 700, fakeResult ''/b.ts'' ''bbb'' 20 2 500]) = 1200
   \<and> (501::nat) \<le> 1200 \<and> (1200::nat) \<le> 1500
   \<and> complexityLevel (buildSummary
         [fakeResult ''/a.ts'' ''aaa'' 10 1 700, fakeResult ''/b.ts'' ''bbb'' 20 2 500]
         \<lparr> cfg_complexity = True, cfg_functions = False \<rparr>) = Some ''Medium''"
  using complexity_level_bands
    [of "\<lparr> cfg_complexity = True, cfg_functions = False \<rparr>"
        "[fakeResult ''/a.ts'' ''aaa'' 10 1 700, fakeResult ''/b.ts'' ''bbb'' 20 2 500]" 1200]
  by (simp add: fakeResult_def)

text \<open>
  C9. The line total is the sum over all results whatever the configuration (of the
  field \<^verbatim>\<open>lines\<close>, which the analyzer sets to \<^verbatim>\<open>totalLines\<close>); the function
  total and the complexity total are sums when their analysis is enabled and are null (None)
  otherwise, and so is the complexity level. A null field is not a zero.
\<close>

theorem summary_totals:
  "summaryLines (buildSummary rs cfg) = sum_list (map lines rs)
   \<and> (cfg_functions cfg \<longrightarrow>
        totalFunctions (buildSummary rs cfg) = Some (sum_list (map functionCount rs)))
   \<and> (\<not> cfg_functions cfg \<longrightarrow> totalFunctions (buildSummary rs cfg) = None)
   \<and> (cfg_complexity cfg \<longrightarrow>
        totalComplexity (buildSummary rs cfg) = Some (sum_list (map complexity rs))
        \<and> complexityLevel (buildSummary rs cfg) \<noteq> None)
   \<and> (\<not> cfg_complexity cfg \<longrightarrow>
        totalComplexity (buildSummary rs cfg) = None
        \<and> complexityLevel (buildSummary rs cfg) = None)
   \<and> None \<noteq> Some (0::nat)
   \<and> ((\<forall>r \<in> set rs. lines r = totalLines r) \<longrightarrow>
        summaryLines (buildSummary rs cfg) = sum_list (map totalLines rs))
   \<and> (analyzeFile e path opts = Inr r \<longrightarrow> lines r = totalLines r)"
proof -
  have "sum_list (map lines rs) = sum_list (map totalLines rs)"
    if "\<forall>r \<in> set rs. lines r = totalLines r"
  proof -
    from that have "map lines rs = map totalLines rs" by simp
    then show ?thesis by (simp only:)
  qed
  then show ?thesis
    using analyzeFile_lines [of e path opts r]
    by (auto simp: buildSummary_fields classify_def)
qed

theorem summary_totals_witness:
  "summaryLines (buildSummary [fakeResult ''/a.ts'' ''aaa'' 10 1 7, fakeResult ''/b.ts'' ''bbb'' 20 2 5]
      \<lparr> cfg_complexity = False, cfg_functions = True \<rparr>) = 30
   \<and> totalFunctions (buildSummary [fakeResult ''/a.ts'' ''aaa'' 10 1 7, fakeResult ''/b.ts'' ''bbb'' 20 2 5]
      \<lparr> cfg_complexity = False, cfg_functions = True \<rparr>) = Some 3
   \<and> totalComplexity (buildSummary [fakeResult ''/a.ts'' ''aaa'' 10 1 7, fakeResult ''/b.ts'' ''bbb'' 20 2 5]
      \<lparr> cfg_complexity = False, cfg_functions = True \<rparr>) = None
   \<and> complexityLevel (buildSummary [fakeResult ''/a.ts'' ''aaa'' 10 1 7, fakeResult ''/b.ts'' ''bbb'' 20 2 5]
      \<lparr> cfg_complexity = False, cfg_functions = True \<rparr>) = None"
  using summary_totals
    [of "[fakeResult ''/a.ts'' ''aaa'' 10 1 7, fakeResult ''/b.ts'' ''bbb'' 20 2 5]"
        "\<lparr> cfg_complexity = False, cfg_functions = True \<rparr>"]
  by (simp add: fakeResult_def)

section \<open>Facts about duplicate grouping\<close>


lemma map_of_map_set: "map_of (map_set m k v) = (map_of m)(k \<mapsto> v)"
  by (induction m k v rule: map_set.induct) auto

lemma keys_map_set:
  "map fst (map_set m k v) = (if k \<in> set (map fst m) then map fst m else map fst m @ [k])"
  by (induction m k v rule: map_set.induct) auto

lemma map_of_map_push:
  "map_of (map_push m k p) =
     (case map_of m k of None \<Rightarrow> map_of m | Some v \<Rightarrow> (map_of m)(k \<mapsto> v @ [p]))"
  by (induction m k p rule: map_push.induct) (auto split: option.splits)

lemma keys_map_push: "map fst (map_push m k p) = map fst m"
  by (induction m k p rule: map_push.induct) auto

lemma paths_with_snoc:
  "paths_with h (rs @ [r]) = paths_with h rs @ (if contentHash r = h then [filePath r] else [])"
  by (simp add: paths_with_def)

lemma grouped_step: "grouped m rs \<Longrightarrow> grouped (group_step m r) (rs @ [r])"
  unfolding grouped_def group_step_def Let_def map_has_def
  by (auto simp: keys_map_push keys_map_set map_of_map_push map_of_map_set paths_with_snoc
      map_of_eq_None_iff split: option.splits if_splits)

lemma grouped_foldl: "grouped m pre \<Longrightarrow> grouped (foldl group_step m rs) (pre @ rs)"
proof (induction rs arbitrary: m pre)
  case Nil then show ?case by simp
next
  case (Cons r rs)
  from Cons.IH [OF grouped_step [OF Cons.prems, of r]] show ?case by simp
qed

lemma grouped_all: "grouped (foldl group_step [] rs) rs"
  using grouped_foldl [of "[]" "[]" rs] by (simp add: grouped_def paths_with_def)

lemma dup_distinct: "distinct (map hash (findDuplicates rs))"
proof -
  let ?m = "foldl group_step [] rs"
  have d: "distinct (map fst ?m)" using grouped_all [of rs] by (simp add: grouped_def)
  have "map hash (findDuplicates rs) = map fst (filter (\<lambda>(h, fs). length fs > 1) ?m)"
    by (simp add: findDuplicates_def Let_def case_prod_unfold comp_def)
  with d show ?thesis by (simp add: distinct_map_filter)
qed

lemma dup_member:
  "g \<in> set (findDuplicates rs) \<longleftrightarrow>
     files g = paths_with (hash g) rs \<and> 2 \<le> length (files g)"
proof -
  let ?m = "foldl group_step [] rs"
  from grouped_all [of rs] have d: "distinct (map fst ?m)"
    and mo: "\<And>h. map_of ?m h = (if paths_with h rs = [] then None else Some (paths_with h rs))"
    by (simp_all add: grouped_def)
  have mem: "(h, fs) \<in> set ?m \<longleftrightarrow> fs = paths_with h rs \<and> fs \<noteq> []" for h fs
  proof -
    have "(h, fs) \<in> set ?m \<longleftrightarrow> map_of ?m h = Some fs"
      using map_of_eq_Some_iff [OF d, of h fs] by simp
    also have "\<dots> \<longleftrightarrow> fs = paths_with h rs \<and> fs \<noteq> []"
      by (cases "paths_with h rs = []") (auto simp: mo)
    finally show ?thesis .
  qed
  have "g \<in> set (findDuplicates rs) \<longleftrightarrow> (hash g, files g) \<in> set ?m \<and> 1 < length (files g)"
    by (cases g) (auto simp: findDuplicates_def Let_def image_iff)
  with mem show ?thesis by auto
qed

lemma dup_scenario:
  "contentHash a = contentHash b \<Longrightarrow> contentHash c \<noteq> contentHash a \<Longrightarrow>
     findDuplicates [a, b, c] = [\<lparr> hash = contentHash a, files = [filePath a, filePath b] \<rparr>]"
  by (simp add: findDuplicates_def group_step_def map_has_def Let_def)

text \<open>
  C3. The grouper emits exactly one group per hash shared by two or more results: the hashes
  of the groups are pairwise different, and a group is emitted if and only if it holds every
  path of its hash (in input order) and these are at least two. A hash held by one result
  gets no group. Two results of one hash and a third of another give the single group of
  the first two paths.
\<close>

theorem duplicate_groups:
  "distinct (map hash (findDuplicates rs))
   \<and> (g \<in> set (findDuplicates rs) \<longleftrightarrow>
        files g = paths_with (hash g) rs \<and> 2 \<le> length (files g))
   \<and> (contentHash a = contentHash b \<and> contentHash c \<noteq> contentHash a \<longrightarrow>
        findDuplicates [a, b, c] = [\<lparr> hash = contentHash a, files = [filePath a, filePath b] \<rparr>])"
  using dup_distinct [of rs] dup_member [of g rs] dup_scenario [of a b c] by blast

theorem duplicate_groups_witness:
  "distinct (map hash (findDuplicates
      [fakeResult ''/a/foo.ts'' ''aaa'' 1 0 0, fakeResult ''/b/foo.ts'' ''aaa'' 1 0 0,
       fakeResult ''/c/bar.ts'' ''bbb'' 1 0 0]))
   \<and> \<lparr> hash = js ''aaa'', files = [js ''/a/foo.ts'', js ''/b/foo.ts''] \<rparr>
       \<in> set (findDuplicates
      [fakeResult ''/a/foo.ts'' ''aaa'' 1 0 0, fakeResult ''/b/foo.ts'' ''aaa'' 1 0 0,
       fakeResult ''/c/bar.ts'' ''bbb'' 1 0 0])
   \<and> contentHash (fakeResult ''/a/foo.ts'' ''aaa'' 1 0 0) = contentHash (fakeResult ''/b/foo.ts'' ''aaa'' 1 0 0)
   \<and> contentHash (fakeResult ''/c/bar.ts'' ''bbb'' 1 0 0) \<noteq> contentHash (fakeResult ''/a/foo.ts'' ''aaa'' 1 0 0)
   \<and> findDuplicates [fakeResult ''/a/foo.ts'' ''aaa'' 1 0 0, fakeResult ''/b/foo.ts'' ''aaa'' 1 0 0,
         fakeResult ''/c/bar.ts'' ''bbb'' 1 0 0]
       = [\<lparr> hash = js ''aaa'', files = [js ''/a/foo.ts'', js ''/b/foo.ts''] \<rparr>]"
proof -
  have h: "js ''bbb'' \<noteq> js ''aaa''" by (simp add: js_def)
  from duplicate_groups
    [of "[fakeResult ''/a/foo.ts'' ''aaa'' 1 0 0, fakeResult ''/b/foo.ts'' ''aaa'' 1 0 0,
          fakeResult ''/c/bar.ts'' ''bbb'' 1 0 0]"
        "\<lparr> hash = js ''aaa'', files = [js ''/a/foo.ts'', js ''/b/foo.ts''] \<rparr>"
        "fakeResult ''/a/foo.ts'' ''aaa'' 1 0 0"
        "fakeResult ''/b/foo.ts'' ''aaa'' 1 0 0" "fakeResult ''/c/bar.ts'' ''bbb'' 1 0 0"] h
  show ?thesis by (simp add: fakeResult_def)
qed

section \<open>Facts about the analyzer\<close>

lemmas tok_defs = tok_if_def tok_else_if_def tok_for_def tok_for_of_def tok_while_def tok_do_def
  tok_case_def tok_catch_def tok_nullish_def tok_optional_def tok_and_def tok_or_def tok_ternary_def

lemmas strip_defs = stripCommentsAndStrings_def rx_template_def rx_block_comment_def
  rx_line_comment_def rx_single_quoted_def rx_double_quoted_def replace_g_def

lemmas ev = seqs_def lit_def rx_plus_def rx_opt_def js_def exec_at_def is_space_def is_word_def
  word_before_def word_after_def rest_def is_line_terminator_def

lemma complexity_sum:
  "calculateComplexity s = 1 + sum_list (map (\<lambda>p. count_matches p s) COMPLEXITY_TOKENS)"
proof -
  have "foldl (\<lambda>c p. case match_g p s of None \<Rightarrow> c | Some m \<Rightarrow> c + length m) a ps
        = a + sum_list (map (\<lambda>p. count_matches p s) ps)" for a ps
    by (induction ps arbitrary: a) (simp_all add: count_matches_def split: option.splits)
  then show ?thesis by (simp add: calculateComplexity_def)
qed

lemma complexity_ge_1: "1 \<le> calculateComplexity s"
  by (simp add: complexity_sum)








text \<open>
  C5. The scorer never returns less than 1, and a file that can be read gets a result whose
  complexity field is 0 when complexity analysis is off and at least 1 when it is on.
\<close>

theorem complexity_field:
  "1 \<le> calculateComplexity s
   \<and> (readFileSync e path = Some content \<longrightarrow>
        (\<exists>r. analyzeFile e path opts = Inr r
           \<and> (\<not> cfg_complexity opts \<longrightarrow> complexity r = 0)
           \<and> (cfg_complexity opts \<longrightarrow> 1 \<le> complexity r)))"
  using complexity_ge_1 [of s] complexity_ge_1 [of "stripCommentsAndStrings content"]
  by (auto simp: analyzeFile_def Let_def)

theorem complexity_field_witness:
  "readFileSync \<lparr> readFileSync = (\<lambda>p. Some (js ''x = 1'')), basename = (\<lambda>p. p), sha256hex = (\<lambda>c. c) \<rparr>
      (js ''/a.ts'') = Some (js ''x = 1'')
   \<and> (\<exists>r. analyzeFile \<lparr> readFileSync = (\<lambda>p. Some (js ''x = 1'')), basename = (\<lambda>p. p), sha256hex = (\<lambda>c. c) \<rparr>
          (js ''/a.ts'') \<lparr> cfg_complexity = False, cfg_functions = False \<rparr> = Inr r \<and> complexity r = 0)
   \<and> (\<exists>r. analyzeFile \<lparr> readFileSync = (\<lambda>p. Some (js ''x = 1'')), basename = (\<lambda>p. p), sha256hex = (\<lambda>c. c) \<rparr>
          (js ''/a.ts'') \<lparr> cfg_complexity = True, cfg_functions = False \<rparr> = Inr r \<and> 1 \<le> complexity r)"
  using complexity_field
    [of "[]" "\<lparr> readFileSync = (\<lambda>p. Some (js ''x = 1'')), basename = (\<lambda>p. p), sha256hex = (\<lambda>c. c) \<rparr>"
        "js ''/a.ts''" "js ''x = 1''" "\<lparr> cfg_complexity = False, cfg_functions = False \<rparr>"]
    complexity_field
    [of "[]" "\<lparr> readFileSync = (\<lambda>p. Some (js ''x = 1'')), basename = (\<lambda>p. p), sha256hex = (\<lambda>c. c) \<rparr>"
        "js ''/a.ts''" "js ''x = 1''" "\<lparr> cfg_complexity = True, cfg_functions = False \<rparr>"]
  by simp




section \<open>Facts about the matcher\<close>

text \<open>
  From here on the matcher is unfolded by hand: the equations of sequences, of the two
  quantifiers and of the scan are taken out of the simplifier.
\<close>

declare segs.simps [simp del]
declare ms.simps(6,8,9) [simp del]


lemma count_matches_cnt: "count_matches a s = cnt a None s"
  by (simp add: count_matches_def match_g_def cnt_def split: list.splits)

lemma cnt_nil: "exec_at a p [] = None \<Longrightarrow> cnt a p [] = 0"
  by (simp add: cnt_def segs.simps [of a p "[]"])

lemma cnt_fail: "exec_at a p (x # xs) = None \<Longrightarrow> cnt a p (x # xs) = cnt a (Some x) xs"
  by (simp add: cnt_def segs.simps [of a p "x # xs"])

lemma cnt_hit:
  "exec_at a p s = Some (p', s', k) \<Longrightarrow> length s' < length s \<Longrightarrow> cnt a p s = Suc (cnt a p' s')"
  by (simp add: cnt_def segs.simps [of a p s])

lemma cnt_skip:
  assumes "\<And>q x xs. x \<in> set w \<Longrightarrow> exec_at a q (x # xs) = None"
  shows "cnt a p (w @ r) = cnt a (prev_after p w) r"
  using assms
proof (induction w arbitrary: p)
  case Nil
  then show ?case by (simp add: prev_after_def)
next
  case (Cons x w)
  have "cnt a p ((x # w) @ r) = cnt a (Some x) (w @ r)"
    using Cons.prems [of x] by (simp add: cnt_fail)
  also have "\<dots> = cnt a (prev_after (Some x) w) r"
    using Cons.prems by (intro Cons.IH) simp
  finally show ?case by (simp add: prev_after_def)
qed

text \<open>Appending text never lowers the count, for patterns that are stable under it.\<close>

lemma cnt_append_mono:
  assumes nonempty: "\<And>p s p' s' k. exec_at a p s = Some (p', s', k) \<Longrightarrow> length s' < length s"
    and stable: "\<And>p t p' t' k. exec_at a p t = Some (p', t', k) \<Longrightarrow>
          exec_at a p (t @ u) = Some (p', t' @ u, k) \<or> (t' = [] \<and> exec_at a p (t @ u) \<noteq> None)"
    and crossing: "\<And>p t. exec_at a p t = None \<Longrightarrow> exec_at a p (t @ u) \<noteq> None \<Longrightarrow> cnt a p t = 0"
  shows "cnt a p t \<le> cnt a p (t @ u)"
proof (induction "length t" arbitrary: p t rule: less_induct)
  case less
  show ?case
  proof (cases "exec_at a p t")
    case None
    show ?thesis
    proof (cases "exec_at a p (t @ u)")
      case None': None
      show ?thesis
      proof (cases t)
        case Nil
        with None show ?thesis by (simp add: cnt_nil)
      next
        case (Cons x xs)
        with None None' less [of xs "Some x"] show ?thesis by (simp add: cnt_fail)
      qed
    next
      case (Some m)
      with None crossing [of p t] show ?thesis by simp
    qed
  next
    case (Some m)
    obtain p' t' k where m: "m = (p', t', k)" by (cases m)
    from Some m nonempty have lt: "length t' < length t" by blast
    have c: "cnt a p t = Suc (cnt a p' t')" using Some m lt by (simp add: cnt_hit)
    from stable [of p t p' t' k] Some m
    consider "exec_at a p (t @ u) = Some (p', t' @ u, k)" | "t' = []" "exec_at a p (t @ u) \<noteq> None"
      by blast
    then show ?thesis
    proof cases
      case 1
      then have "cnt a p (t @ u) = Suc (cnt a p' (t' @ u))" using lt by (simp add: cnt_hit)
      with c less [OF lt, of p'] show ?thesis by simp
    next
      case 2
      then obtain p2 r2 k2 where e: "exec_at a p (t @ u) = Some (p2, r2, k2)" by (cases "exec_at a p (t @ u)") auto
      with nonempty have "length r2 < length (t @ u)" by blast
      with e have "cnt a p (t @ u) = Suc (cnt a p2 r2)" by (simp add: cnt_hit)
      moreover have "exec_at a p' [] = None"
        using nonempty [of p' "[]"] by (cases "exec_at a p' []") auto
      then have "cnt a p' [] = 0" by (rule cnt_nil)
      ultimately show ?thesis using c 2 by simp
    qed
  qed
qed


lemma lit_lits: "lit w = foldr Seq (map Chr (js w)) Eps"
  by (simp add: lit_def seqs_def js_def comp_def)

lemma ms_lits:
  "ms (foldr Seq (map Chr w) Eps) (p, s, k) =
     (if take (length w) s = w then [(prev_after p w, drop (length w) s, k)] else [])"
proof (induction w arbitrary: p s)
  case Nil then show ?case by (simp add: prev_after_def)
next
  case (Cons x w)
  then show ?case by (cases s) (auto simp: prev_after_def ms.simps(6))
qed

lemma ms_Seq_WordB:
  "ms (Seq WordB K) (p, s, k) = (if word_before p \<noteq> word_after s then ms K (p, s, k) else [])"
  by (simp add: ms.simps(6))

lemma ms_Seq_lits:
  "ms (Seq (foldr Seq (map Chr w) Eps) K) (p, s, k) =
     (if take (length w) s = w then ms K (prev_after p w, drop (length w) s, k) else [])"
  by (simp add: ms.simps(6) ms_lits)

lemma ms_Seq_Chr:
  "ms (Seq (Chr c) K) (p, s, k) =
     (case s of [] \<Rightarrow> [] | x # xs \<Rightarrow> if x = c then ms K (Some x, xs, k) else [])"
  by (cases s) (simp_all add: ms.simps(6))

lemma ms_Seq_Cls:
  "ms (Seq (Cls P) K) (p, s, k) =
     (case s of [] \<Rightarrow> [] | x # xs \<Rightarrow> if P x then ms K (Some x, xs, k) else [])"
  by (cases s) (simp_all add: ms.simps(6))

lemma ms_Seq_Eps: "ms (Seq a Eps) s = ms a s"
proof -
  have "ms Eps = (\<lambda>s. [s])" by (rule ext) simp
  then show ?thesis by (simp add: ms.simps(6))
qed

lemma star_cls_Cons:
  "ms (Star (Cls P)) (p, x # xs, k) =
     (if P x then ms (Star (Cls P)) (Some x, xs, k) else []) @ [(p, x # xs, k)]"
  by (simp add: ms.simps(8) rest_def)

lemma star_cls_Nil: "ms (Star (Cls P)) (p, [], k) = [(p, [], k)]"
  by (simp add: ms.simps(8))

lemma ms_Seq_Star:
  assumes "\<And>q x r. P x \<Longrightarrow> ms K (q, x # r, k) = []"
  shows "ms (Seq (Star (Cls P)) K) (p, s, k) = ms K (prev_after p (takeWhile P s), dropWhile P s, k)"
proof (induction s arbitrary: p)
  case Nil
  then show ?case by (simp add: ms.simps(6) star_cls_Nil prev_after_def)
next
  case (Cons x xs)
  show ?case
  proof (cases "P x")
    case True
    have "ms (Seq (Star (Cls P)) K) (p, x # xs, k)
          = ms (Seq (Star (Cls P)) K) (Some x, xs, k) @ ms K (p, x # xs, k)"
      using True by (simp add: ms.simps(6) star_cls_Cons)
    also have "\<dots> = ms K (prev_after (Some x) (takeWhile P xs), dropWhile P xs, k)"
      using True assms [of x p xs] Cons.IH [of "Some x"] by simp
    finally show ?thesis using True by (simp add: prev_after_def)
  next
    case False
    then show ?thesis by (simp add: ms.simps(6) star_cls_Cons prev_after_def)
  qed
qed

lemma dropWhile_eq_Cons_iff:
  assumes "\<not> P c"
  shows "dropWhile P s = c # r \<longleftrightarrow> (\<exists>ws. s = ws @ c # r \<and> (\<forall>x\<in>set ws. P x))"
proof
  assume "dropWhile P s = c # r"
  then have "s = takeWhile P s @ c # r" by (metis takeWhile_dropWhile_id)
  moreover have "\<forall>x\<in>set (takeWhile P s). P x" by (auto dest: set_takeWhileD)
  ultimately show "\<exists>ws. s = ws @ c # r \<and> (\<forall>x\<in>set ws. P x)" by blast
next
  assume "\<exists>ws. s = ws @ c # r \<and> (\<forall>x\<in>set ws. P x)"
  then show "dropWhile P s = c # r" using assms by (auto simp: dropWhile_append3)
qed

lemma ms_kw:
  assumes c: "\<not> is_space c"
  shows "ms (kw_tok w c) (p, s, None) =
      (if word_before p \<noteq> word_after s \<and> take (length w) s = w
       then ms (Chr c) (prev_after (prev_after p w) (takeWhile is_space (drop (length w) s)),
                        dropWhile is_space (drop (length w) s), None)
       else [])"
proof -
  have star: "ms (Seq (Star (Cls is_space)) (Seq (Chr c) Eps)) (q, r, None)
      = ms (Seq (Chr c) Eps) (prev_after q (takeWhile is_space r), dropWhile is_space r, None)" for q r
    by (rule ms_Seq_Star) (use c in \<open>auto simp: ms_Seq_Chr\<close>)
  show ?thesis
    by (simp add: kw_tok_def ms_Seq_WordB ms_Seq_lits star ms_Seq_Eps)
qed

lemma exec_kw:
  assumes c: "\<not> is_space c"
  shows "exec_at (kw_tok w c) p s = Some m \<longleftrightarrow>
     word_before p \<noteq> word_after s \<and>
     (\<exists>ws r. s = w @ ws @ c # r \<and> (\<forall>x\<in>set ws. is_space x) \<and> m = (Some c, r, None))"
proof (cases "take (length w) s = w")
  case False
  then have "\<And>ws r. s \<noteq> w @ ws @ c # r" by auto
  with False show ?thesis
    by (simp add: exec_at_def ms_kw [OF c])
next
  case True
  then obtain r0 where s: "s = w @ r0" by (metis append_take_drop_id)
  have e: "exec_at (kw_tok w c) p s = Some m \<longleftrightarrow>
      word_before p \<noteq> word_after s \<and> (\<exists>r. dropWhile is_space r0 = c # r \<and> m = (Some c, r, None))"
  proof (cases "dropWhile is_space r0")
    case Nil
    then show ?thesis by (simp add: exec_at_def ms_kw [OF c] s del: dropWhile_eq_Nil_conv)
  next
    case (Cons x r)
    then show ?thesis by (auto simp: exec_at_def ms_kw [OF c] s)
  qed
  have "(\<exists>r. dropWhile is_space r0 = c # r \<and> m = (Some c, r, None)) \<longleftrightarrow>
        (\<exists>ws r. s = w @ ws @ c # r \<and> (\<forall>x\<in>set ws. is_space x) \<and> m = (Some c, r, None))"
    unfolding s using c by (simp add: dropWhile_eq_Cons_iff [of is_space c]) blast
  with e show ?thesis by simp
qed

lemma tok_kw:
  "tok_if = kw_tok (js ''if'') 40" "tok_for = kw_tok (js ''for'') 40"
  "tok_while = kw_tok (js ''while'') 40" "tok_do = kw_tok (js ''do'') 123"
  "tok_catch = kw_tok (js ''catch'') 40"
  by (simp_all add: tok_defs kw_tok_def seqs_def lit_lits)

lemma cnt_zero_inv:
  assumes fail: "\<And>q s. I s \<Longrightarrow> exec_at a q s = None"
    and step: "\<And>x s. I (x # s) \<Longrightarrow> I s"
    and "I t"
  shows "cnt a p t = 0"
  using \<open>I t\<close>
proof (induction t arbitrary: p)
  case Nil
  then show ?case by (simp add: cnt_nil fail)
next
  case (Cons x t)
  from Cons.prems have "exec_at a p (x # t) = None" by (rule fail)
  moreover from Cons.prems have "I t" by (rule step)
  ultimately show ?case using Cons.IH by (simp add: cnt_fail)
qed

lemma word_after_append: "t \<noteq> [] \<Longrightarrow> word_after (t @ u) = word_after t"
  by (cases t) (simp_all add: word_after_def)

lemma exec_None_iff: "exec_at a p s = None \<longleftrightarrow> (\<forall>m. exec_at a p s \<noteq> Some m)"
  by (cases "exec_at a p s") simp_all

lemma kw_append_mono:
  assumes c: "\<not> is_space c" and cw: "c \<notin> set w"
  shows "cnt (kw_tok w c) p t \<le> cnt (kw_tok w c) p (t @ u)"
proof (rule cnt_append_mono)
  fix p s p' s' k
  assume "exec_at (kw_tok w c) p s = Some (p', s', k)"
  then show "length s' < length s" by (auto simp: exec_kw [OF c])
next
  fix p t p' t' k
  assume e: "exec_at (kw_tok w c) p t = Some (p', t', k)"
  then obtain ws where t: "t = w @ ws @ c # t'" and ws: "\<forall>x\<in>set ws. is_space x"
    and b: "word_before p \<noteq> word_after t" and m: "p' = Some c" "k = None"
    by (auto simp: exec_kw [OF c])
  have "t \<noteq> []" using t by auto
  then have "word_before p \<noteq> word_after (t @ u)" using b by (simp add: word_after_append)
  moreover have "t @ u = w @ ws @ c # (t' @ u)" using t by simp
  ultimately have "exec_at (kw_tok w c) p (t @ u) = Some (p', t' @ u, k)"
    unfolding exec_kw [OF c] using ws m by blast
  then show "exec_at (kw_tok w c) p (t @ u) = Some (p', t' @ u, k) \<or>
             (t' = [] \<and> exec_at (kw_tok w c) p (t @ u) \<noteq> None)" ..
next
  fix p t
  assume n: "exec_at (kw_tok w c) p t = None" and "exec_at (kw_tok w c) p (t @ u) \<noteq> None"
  then obtain ws r where tu: "t @ u = w @ ws @ c # r" and ws: "\<forall>x\<in>set ws. is_space x"
    and b: "word_before p \<noteq> word_after (t @ u)"
    by (auto simp: exec_kw [OF c])
  have noc: "c \<notin> set t"
  proof (cases "t = []")
    case True then show ?thesis by simp
  next
    case False
    from tu have "t @ u = (w @ ws) @ c # r" by simp
    then obtain z where "(t = (w @ ws) @ z \<and> z @ u = c # r) \<or> (t @ z = w @ ws \<and> u = z @ c # r)"
      unfolding append_eq_append_conv2 by blast
    then show ?thesis
    proof
      assume a: "t = (w @ ws) @ z \<and> z @ u = c # r"
      show ?thesis
      proof (cases z)
        case Nil
        with a cw ws c show ?thesis by auto
      next
        case (Cons y z')
        with a have "t = w @ ws @ c # z'" by simp
        moreover have "word_before p \<noteq> word_after t" using b False by (simp add: word_after_append)
        ultimately have "exec_at (kw_tok w c) p t = Some (Some c, z', None)"
          unfolding exec_kw [OF c] using ws by blast
        with n show ?thesis by simp
      qed
    next
      assume a: "t @ z = w @ ws \<and> u = z @ c # r"
      then have "set t \<subseteq> set (w @ ws)" by (metis set_append Un_upper1)
      with cw ws c show ?thesis by auto
    qed
  qed
  show "cnt (kw_tok w c) p t = 0"
  proof (rule cnt_zero_inv [where I = "\<lambda>s. c \<notin> set s"])
    fix q s assume "c \<notin> set s"
    then show "exec_at (kw_tok w c) q s = None"
      unfolding exec_None_iff exec_kw [OF c] by auto
  qed (use noc in auto)
qed

lemma exec_lits:
  "exec_at (foldr Seq (map Chr w) Eps) p s =
     (if take (length w) s = w then Some (prev_after p w, drop (length w) s, None) else None)"
  by (simp add: exec_at_def ms_lits)

lemma take_eq_length: "take (length w) t = w \<Longrightarrow> length w \<le> length t"
proof -
  assume "take (length w) t = w"
  then have "length (take (length w) t) = length w" by simp
  then show ?thesis by simp
qed

lemma take_append_eq: "take (length w) t = w \<Longrightarrow> take (length w) (t @ u) = w"
  using take_eq_length [of w t] by simp

lemma lits_append_mono:
  assumes w: "w \<noteq> []"
  shows "cnt (foldr Seq (map Chr w) Eps) p t \<le> cnt (foldr Seq (map Chr w) Eps) p (t @ u)"
proof (rule cnt_append_mono)
  fix p s p' s' k
  assume "exec_at (foldr Seq (map Chr w) Eps) p s = Some (p', s', k)"
  then have "take (length w) s = w" "s' = drop (length w) s"
    by (auto simp: exec_lits split: if_splits)
  then show "length s' < length s" using w by (cases s) auto
next
  fix p t p' t' k
  assume "exec_at (foldr Seq (map Chr w) Eps) p t = Some (p', t', k)"
  then have a: "take (length w) t = w" "t' = drop (length w) t" "p' = prev_after p w" "k = None"
    by (auto simp: exec_lits split: if_splits)
  then have "length w \<le> length t" by (simp add: take_eq_length)
  with a have "exec_at (foldr Seq (map Chr w) Eps) p (t @ u) = Some (p', t' @ u, k)"
    by (simp add: exec_lits take_append_eq)
  then show "exec_at (foldr Seq (map Chr w) Eps) p (t @ u) = Some (p', t' @ u, k) \<or>
      (t' = [] \<and> exec_at (foldr Seq (map Chr w) Eps) p (t @ u) \<noteq> None)" ..
next
  fix p t
  assume n: "exec_at (foldr Seq (map Chr w) Eps) p t = None"
    and "exec_at (foldr Seq (map Chr w) Eps) p (t @ u) \<noteq> None"
  then have a: "take (length w) t \<noteq> w" "take (length w) (t @ u) = w"
    by (auto simp: exec_lits split: if_splits)
  then have short: "length t < length w" by (cases "length w \<le> length t") auto
  show "cnt (foldr Seq (map Chr w) Eps) p t = 0"
  proof (rule cnt_zero_inv [where I = "\<lambda>s. length s < length w"])
    fix q s :: "cu list" and q' :: "cu option" assume "length s < length w"
    then have "take (length w) s \<noteq> w" using take_eq_length [of w s] by auto
    then show "exec_at (foldr Seq (map Chr w) Eps) q' s = None" by (simp add: exec_lits)
  qed (use short in auto)
qed

lemma exec_ternary:
  "exec_at tok_ternary p s = Some m \<longleftrightarrow>
     (\<exists>y r. s = 63 # y # r \<and> y \<noteq> 63 \<and> y \<noteq> 46 \<and> m = (Some y, r, None))"
proof (cases s)
  case Nil
  then show ?thesis by (simp add: exec_at_def tok_ternary_def seqs_def ms_Seq_Chr)
next
  case (Cons x xs)
  then show ?thesis
    by (cases xs) (auto simp: exec_at_def tok_ternary_def seqs_def ms_Seq_Chr ms_Seq_Cls ms_Seq_Eps)
qed

lemma ternary_append_mono: "cnt tok_ternary p t \<le> cnt tok_ternary p (t @ u)"
proof (rule cnt_append_mono)
  fix p s p' s' k
  assume "exec_at tok_ternary p s = Some (p', s', k)"
  then show "length s' < length s" by (auto simp: exec_ternary)
next
  fix p t p' t' k
  assume "exec_at tok_ternary p t = Some (p', t', k)"
  then have "exec_at tok_ternary p (t @ u) = Some (p', t' @ u, k)"
    by (auto simp: exec_ternary)
  then show "exec_at tok_ternary p (t @ u) = Some (p', t' @ u, k) \<or>
      (t' = [] \<and> exec_at tok_ternary p (t @ u) \<noteq> None)" ..
next
  fix p t
  assume n: "exec_at tok_ternary p t = None" and "exec_at tok_ternary p (t @ u) \<noteq> None"
  then obtain y r where tu: "t @ u = 63 # y # r" "y \<noteq> 63" "y \<noteq> 46"
    by (auto simp: exec_ternary)
  have short: "length t < 2"
  proof (rule ccontr)
    assume "\<not> length t < 2"
    then obtain a b t2 where "t = a # b # t2" by (cases t; cases "tl t") auto
    with tu have "t = 63 # y # t2" by simp
    with tu n show False by (simp add: exec_None_iff exec_ternary)
  qed
  show "cnt tok_ternary p t = 0"
  proof (rule cnt_zero_inv [where I = "\<lambda>s. length s < 2"])
    fix q s :: "cu list" and q' :: "cu option" assume "length s < 2"
    then show "exec_at tok_ternary q' s = None"
      unfolding exec_None_iff exec_ternary by auto
  qed (use short in auto)
qed

lemma concat_map_concat: "concat (map f (concat xss)) = concat (map (\<lambda>xs. concat (map f xs)) xss)"
  by (induction xss) simp_all

lemma ms_Seq_assoc: "ms (Seq (Seq a b) c) s = ms (Seq a (Seq b c)) s"
proof -
  have "ms (Seq b c) = (\<lambda>x. concat (map (ms c) (ms b x)))"
    by (rule ext) (simp add: ms.simps(6))
  then show ?thesis by (simp add: ms.simps(6) concat_map_concat comp_def)
qed

lemma ms_Seq_Cls_hd:
  "ms (Seq (Cls P) K) (p, s, k) =
     (if s \<noteq> [] \<and> P (hd s) then ms K (Some (hd s), tl s, k) else [])"
  by (cases s) (simp_all add: ms.simps(6))

lemma star_cls_hd:
  "\<exists>more. ms (Star (Cls P)) (p, s, k) = (prev_after p (takeWhile P s), dropWhile P s, k) # more"
proof (induction s arbitrary: p)
  case Nil
  then show ?case by (simp add: star_cls_Nil prev_after_def)
next
  case (Cons x xs)
  show ?case
  proof (cases "P x")
    case True
    from Cons.IH [of "Some x"] obtain more where
      "ms (Star (Cls P)) (Some x, xs, k) = (prev_after (Some x) (takeWhile P xs), dropWhile P xs, k) # more"
      by blast
    with True show ?thesis by (simp add: star_cls_Cons prev_after_def)
  next
    case False
    then show ?thesis by (simp add: star_cls_Cons prev_after_def)
  qed
qed

lemma tok_case_kw: "tok_case = kw_sp (js ''case'')"
  by (simp add: tok_case_def kw_sp_def seqs_def lit_lits rx_plus_def)

lemma ms_kw_sp:
  "\<exists>more. ms (kw_sp w) (p, s, None) =
     (if word_before p \<noteq> word_after s \<and> take (length w) s = w \<and> drop (length w) s \<noteq> []
         \<and> is_space (hd (drop (length w) s))
      then (prev_after (Some (hd (drop (length w) s))) (takeWhile is_space (tl (drop (length w) s))),
            dropWhile is_space (tl (drop (length w) s)), None) # more
      else [])"
proof -
  obtain more where "ms (Star (Cls is_space)) (Some (hd (drop (length w) s)), tl (drop (length w) s), None)
      = (prev_after (Some (hd (drop (length w) s))) (takeWhile is_space (tl (drop (length w) s))),
            dropWhile is_space (tl (drop (length w) s)), None) # more"
    using star_cls_hd by blast
  then show ?thesis
    by (simp add: kw_sp_def ms_Seq_WordB ms_Seq_lits ms_Seq_Eps ms_Seq_Cls_hd)
qed

lemma exec_kw_sp:
  "exec_at (kw_sp w) p s = Some m \<longleftrightarrow>
     word_before p \<noteq> word_after s \<and>
     (\<exists>x r0. s = w @ x # r0 \<and> is_space x
        \<and> m = (prev_after (Some x) (takeWhile is_space r0), dropWhile is_space r0, None))"
proof -
  obtain more where ms: "ms (kw_sp w) (p, s, None) =
     (if word_before p \<noteq> word_after s \<and> take (length w) s = w \<and> drop (length w) s \<noteq> []
         \<and> is_space (hd (drop (length w) s))
      then (prev_after (Some (hd (drop (length w) s))) (takeWhile is_space (tl (drop (length w) s))),
            dropWhile is_space (tl (drop (length w) s)), None) # more
      else [])"
    using ms_kw_sp by blast
  show ?thesis
  proof
    assume "exec_at (kw_sp w) p s = Some m"
    then have c: "word_before p \<noteq> word_after s" "take (length w) s = w" "drop (length w) s \<noteq> []"
        "is_space (hd (drop (length w) s))"
      and m: "m = (prev_after (Some (hd (drop (length w) s))) (takeWhile is_space (tl (drop (length w) s))),
            dropWhile is_space (tl (drop (length w) s)), None)"
      unfolding exec_at_def ms by (auto split: if_splits)
    have "s = take (length w) s @ drop (length w) s" by simp
    also have "drop (length w) s = hd (drop (length w) s) # tl (drop (length w) s)" using c(3) by simp
    finally have "s = w @ hd (drop (length w) s) # tl (drop (length w) s)" using c(2) by simp
    with c m show "word_before p \<noteq> word_after s \<and>
     (\<exists>x r0. s = w @ x # r0 \<and> is_space x
        \<and> m = (prev_after (Some x) (takeWhile is_space r0), dropWhile is_space r0, None))"
      by blast
  next
    assume "word_before p \<noteq> word_after s \<and>
     (\<exists>x r0. s = w @ x # r0 \<and> is_space x
        \<and> m = (prev_after (Some x) (takeWhile is_space r0), dropWhile is_space r0, None))"
    then show "exec_at (kw_sp w) p s = Some m"
      unfolding exec_at_def ms by auto
  qed
qed

lemma kw_sp_append_mono: "cnt (kw_sp w) p t \<le> cnt (kw_sp w) p (t @ u)"
proof (rule cnt_append_mono)
  fix p s p' s' k
  assume "exec_at (kw_sp w) p s = Some (p', s', k)"
  then obtain x r0 where "s = w @ x # r0" "s' = dropWhile is_space r0"
    by (auto simp: exec_kw_sp)
  moreover have "length (dropWhile is_space r0) \<le> length r0" by (rule length_dropWhile_le)
  ultimately show "length s' < length s" by simp
next
  fix p t p' t' k
  assume e: "exec_at (kw_sp w) p t = Some (p', t', k)"
  then obtain x r0 where t: "t = w @ x # r0" and x: "is_space x"
    and b: "word_before p \<noteq> word_after t"
    and m: "p' = prev_after (Some x) (takeWhile is_space r0)" "t' = dropWhile is_space r0" "k = None"
    by (auto simp: exec_kw_sp)
  have "t \<noteq> []" using t by auto
  then have b': "word_before p \<noteq> word_after (t @ u)" using b by (simp add: word_after_append)
  have tu: "t @ u = w @ x # (r0 @ u)" using t by simp
  show "exec_at (kw_sp w) p (t @ u) = Some (p', t' @ u, k) \<or>
             (t' = [] \<and> exec_at (kw_sp w) p (t @ u) \<noteq> None)"
  proof (cases "t' = []")
    case True
    have "exec_at (kw_sp w) p (t @ u) = Some (prev_after (Some x) (takeWhile is_space (r0 @ u)),
        dropWhile is_space (r0 @ u), None)"
      unfolding exec_kw_sp using b' tu x by blast
    with True show ?thesis by simp
  next
    case False
    with m have ex: "\<exists>y\<in>set r0. \<not> is_space y" by auto
    then have "takeWhile is_space (r0 @ u) = takeWhile is_space r0"
      "dropWhile is_space (r0 @ u) = dropWhile is_space r0 @ u"
      by (auto simp: takeWhile_append1 dropWhile_append1)
    then have "exec_at (kw_sp w) p (t @ u) = Some (p', t' @ u, k)"
      unfolding exec_kw_sp using b' tu x m by auto
    then show ?thesis ..
  qed
next
  fix p t
  assume n: "exec_at (kw_sp w) p t = None" and "exec_at (kw_sp w) p (t @ u) \<noteq> None"
  then obtain x r where tu: "t @ u = w @ x # r" and x: "is_space x"
    and b: "word_before p \<noteq> word_after (t @ u)"
    by (auto simp: exec_kw_sp)
  have short: "length t \<le> length w"
  proof (rule ccontr)
    assume "\<not> length t \<le> length w"
    then have l: "length w < length t" by simp
    from tu have "take (Suc (length w)) (t @ u) = w @ [x]" by simp
    with l have "take (Suc (length w)) t = w @ [x]" by simp
    then have "t = (w @ [x]) @ drop (Suc (length w)) t" by (metis append_take_drop_id)
    then have t: "t = w @ x # drop (Suc (length w)) t" by simp
    then have "t \<noteq> []" by auto
    then have "word_before p \<noteq> word_after t" using b by (simp add: word_after_append)
    with t x have "\<exists>m. exec_at (kw_sp w) p t = Some m" unfolding exec_kw_sp by blast
    with n show False by simp
  qed
  show "cnt (kw_sp w) p t = 0"
  proof (rule cnt_zero_inv [where I = "\<lambda>s. length s \<le> length w"])
    fix q s :: "cu list" and q' :: "cu option" assume "length s \<le> length w"
    then show "exec_at (kw_sp w) q' s = None"
      unfolding exec_None_iff exec_kw_sp by auto
  qed (use short in auto)
qed

lemma tok_else_if_kw2: "tok_else_if = kw2_tok (js ''else'') (js ''if'') 40"
  by (simp add: tok_else_if_def kw2_tok_def seqs_def lit_lits rx_plus_def)

lemma prefix_cases:
  assumes "t @ u = pre @ c # r" and "c \<notin> set pre"
  shows "c \<notin> set t \<or> (\<exists>z. t = pre @ c # z \<and> r = z @ u)"
proof -
  from assms(1) obtain z where "(t = pre @ z \<and> z @ u = c # r) \<or> (t @ z = pre \<and> u = z @ c # r)"
    unfolding append_eq_append_conv2 by blast
  then show ?thesis
  proof
    assume a: "t = pre @ z \<and> z @ u = c # r"
    show ?thesis
    proof (cases z)
      case Nil
      with a assms(2) show ?thesis by simp
    next
      case (Cons y z')
      with a show ?thesis by auto
    qed
  next
    assume a: "t @ z = pre \<and> u = z @ c # r"
    then have "set t \<subseteq> set pre" by auto
    with assms(2) show ?thesis by auto
  qed
qed

lemma ms_kw2:
  assumes c: "\<not> is_space c" and w2: "w2 \<noteq> []" "\<not> is_space (hd w2)"
  shows "ms (kw2_tok w1 w2 c) (p, s, None) =
     (if word_before p \<noteq> word_after s \<and> take (length w1) s = w1 \<and> drop (length w1) s \<noteq> []
         \<and> is_space (hd (drop (length w1) s))
         \<and> take (length w2) (dropWhile is_space (tl (drop (length w1) s))) = w2
      then ms (Chr c) (None,
             dropWhile is_space (drop (length w2) (dropWhile is_space (tl (drop (length w1) s)))), None)
      else [])"
proof -
  let ?K2 = "Seq (Star (Cls is_space)) (Seq (Chr c) Eps)"
  let ?K1 = "Seq (foldr Seq (map Chr w2) Eps) ?K2"
  have star2: "ms ?K2 (q, r, None)
      = ms (Seq (Chr c) Eps) (prev_after q (takeWhile is_space r), dropWhile is_space r, None)" for q r
    by (rule ms_Seq_Star) (use c in \<open>auto simp: ms_Seq_Chr\<close>)
  have fail1: "ms ?K1 (q, x # r, None) = []" if "is_space x" for q x r
  proof -
    have "take (length w2) (x # r) \<noteq> w2"
    proof
      assume "take (length w2) (x # r) = w2"
      then have "hd w2 = x" using w2(1) by (cases w2) auto
      with that w2(2) show False by simp
    qed
    then show ?thesis by (simp add: ms_Seq_lits)
  qed
  have star1: "ms (Seq (Star (Cls is_space)) ?K1) (q, r, None)
      = ms ?K1 (prev_after q (takeWhile is_space r), dropWhile is_space r, None)" for q r
    by (rule ms_Seq_Star) (rule fail1)
  show ?thesis
    unfolding kw2_tok_def ms_Seq_WordB ms_Seq_lits ms_Seq_assoc ms_Seq_Cls_hd star1 star2 ms_Seq_Eps
    by simp
qed

lemma exec_kw2:
  assumes c: "\<not> is_space c" and w2: "w2 \<noteq> []" "\<not> is_space (hd w2)"
  shows "exec_at (kw2_tok w1 w2 c) p s = Some m \<longleftrightarrow>
     word_before p \<noteq> word_after s \<and>
     (\<exists>ws1 ws2 r. s = w1 @ ws1 @ w2 @ ws2 @ c # r \<and> ws1 \<noteq> [] \<and> (\<forall>x\<in>set ws1. is_space x)
        \<and> (\<forall>x\<in>set ws2. is_space x) \<and> m = (Some c, r, None))"
  (is "?L \<longleftrightarrow> ?B \<and> ?R")
proof
  assume ?L
  let ?d1 = "drop (length w1) s"
  let ?r1 = "dropWhile is_space (tl ?d1)"
  let ?r2 = "dropWhile is_space (drop (length w2) ?r1)"
  from \<open>?L\<close> have cond: "?B" "take (length w1) s = w1" "?d1 \<noteq> []" "is_space (hd ?d1)"
      "take (length w2) ?r1 = w2"
    and last: "(case ms (Chr c) (None, ?r2, None) of [] \<Rightarrow> None | m # _ \<Rightarrow> Some m) = Some m"
    unfolding exec_at_def ms_kw2 [OF assms] by (auto split: if_splits)
  from last obtain r where r2: "?r2 = c # r" and m: "m = (Some c, r, None)"
    by (cases ?r2) (auto split: if_splits)
  have "s = take (length w1) s @ ?d1" by simp
  also have "?d1 = hd ?d1 # tl ?d1" using cond(3) by simp
  also have "tl ?d1 = takeWhile is_space (tl ?d1) @ ?r1" by simp
  also have "?r1 = take (length w2) ?r1 @ drop (length w2) ?r1" by simp
  also have "drop (length w2) ?r1 = takeWhile is_space (drop (length w2) ?r1) @ ?r2" by simp
  finally have "s = w1 @ (hd ?d1 # takeWhile is_space (tl ?d1)) @ w2
      @ takeWhile is_space (drop (length w2) ?r1) @ c # r"
    using cond(2,5) r2 by simp
  moreover have "\<forall>x\<in>set (hd ?d1 # takeWhile is_space (tl ?d1)). is_space x"
    using cond(4) by (auto dest: set_takeWhileD)
  moreover have "\<forall>x\<in>set (takeWhile is_space (drop (length w2) ?r1)). is_space x"
    by (auto dest: set_takeWhileD)
  ultimately have ?R using m by blast
  with cond(1) show "?B \<and> ?R" ..
next
  assume "?B \<and> ?R"
  then obtain ws1 ws2 r where b: ?B and s: "s = w1 @ ws1 @ w2 @ ws2 @ c # r" and n: "ws1 \<noteq> []"
    and s1: "\<forall>x\<in>set ws1. is_space x" and s2: "\<forall>x\<in>set ws2. is_space x" and m: "m = (Some c, r, None)"
    by blast
  obtain x ws1' where ws1: "ws1 = x # ws1'" using n by (cases ws1) auto
  obtain y w2' where w2c: "w2 = y # w2'" using w2(1) by (cases w2) auto
  have y: "\<not> is_space y" using w2(2) w2c by simp
  have d1: "drop (length w1) s = x # ws1' @ w2 @ ws2 @ c # r" using s ws1 by simp
  have r1: "dropWhile is_space (ws1' @ w2 @ ws2 @ c # r) = w2 @ ws2 @ c # r"
    using s1 ws1 y w2c by (simp add: dropWhile_append2)
  have r2: "dropWhile is_space (ws2 @ c # r) = c # r"
    using s2 c by (simp add: dropWhile_append2)
  show ?L
    unfolding exec_at_def ms_kw2 [OF assms] using b s1 ws1 m
    by (simp add: s d1 r1 r2)
qed

lemma kw2_append_mono:
  assumes c: "\<not> is_space c" and w2: "w2 \<noteq> []" "\<not> is_space (hd w2)"
    and cw: "c \<notin> set w1" "c \<notin> set w2"
  shows "cnt (kw2_tok w1 w2 c) p t \<le> cnt (kw2_tok w1 w2 c) p (t @ u)"
proof (rule cnt_append_mono)
  note ex = exec_kw2 [OF c w2]
  {
    fix p s p' s' k
    assume "exec_at (kw2_tok w1 w2 c) p s = Some (p', s', k)"
    then show "length s' < length s" by (auto simp: ex)
  next
    fix p t p' t' k
    assume e: "exec_at (kw2_tok w1 w2 c) p t = Some (p', t', k)"
    then obtain ws1 ws2 where t: "t = w1 @ ws1 @ w2 @ ws2 @ c # t'" and ws: "ws1 \<noteq> []"
        "\<forall>x\<in>set ws1. is_space x" "\<forall>x\<in>set ws2. is_space x"
      and b: "word_before p \<noteq> word_after t" and m: "p' = Some c" "k = None"
      by (auto simp: ex)
    have "t \<noteq> []" using t ws by auto
    then have "word_before p \<noteq> word_after (t @ u)" using b by (simp add: word_after_append)
    moreover have "t @ u = w1 @ ws1 @ w2 @ ws2 @ c # (t' @ u)" using t by simp
    ultimately have "exec_at (kw2_tok w1 w2 c) p (t @ u) = Some (p', t' @ u, k)"
      unfolding ex using ws m by blast
    then show "exec_at (kw2_tok w1 w2 c) p (t @ u) = Some (p', t' @ u, k) \<or>
               (t' = [] \<and> exec_at (kw2_tok w1 w2 c) p (t @ u) \<noteq> None)" ..
  next
    fix p t
    assume n: "exec_at (kw2_tok w1 w2 c) p t = None"
      and "exec_at (kw2_tok w1 w2 c) p (t @ u) \<noteq> None"
    then obtain ws1 ws2 r where tu: "t @ u = w1 @ ws1 @ w2 @ ws2 @ c # r" and ws: "ws1 \<noteq> []"
        "\<forall>x\<in>set ws1. is_space x" "\<forall>x\<in>set ws2. is_space x"
      and b: "word_before p \<noteq> word_after (t @ u)"
      by (auto simp: ex)
    have "c \<notin> set (w1 @ ws1 @ w2 @ ws2)" using cw ws c by auto
    moreover have "t @ u = (w1 @ ws1 @ w2 @ ws2) @ c # r" using tu by simp
    ultimately have "c \<notin> set t \<or> (\<exists>z. t = (w1 @ ws1 @ w2 @ ws2) @ c # z \<and> r = z @ u)"
      by (rule prefix_cases [rotated])
    then have noc: "c \<notin> set t"
    proof
      assume "\<exists>z. t = (w1 @ ws1 @ w2 @ ws2) @ c # z \<and> r = z @ u"
      then obtain z where t: "t = w1 @ ws1 @ w2 @ ws2 @ c # z" by auto
      then have "t \<noteq> []" using ws by auto
      then have "word_before p \<noteq> word_after t" using b by (simp add: word_after_append)
      with t ws have "\<exists>m. exec_at (kw2_tok w1 w2 c) p t = Some m" unfolding ex by blast
      with n show ?thesis by simp
    qed
    show "cnt (kw2_tok w1 w2 c) p t = 0"
    proof (rule cnt_zero_inv [where I = "\<lambda>s. c \<notin> set s"])
      fix q s assume "c \<notin> set s"
      then show "exec_at (kw2_tok w1 w2 c) q s = None"
        unfolding exec_None_iff ex by auto
    qed (use noc in auto)
  }
qed

lemma space_not_word: "is_space x \<Longrightarrow> \<not> is_word x"
  by (auto simp: is_space_def is_word_def)

lemma else_if_le_if_gen:
  assumes c: "\<not> is_space c" and w2: "w2 \<noteq> []" "is_word (hd w2)"
    and w1: "w1 \<noteq> []" "hd w2 \<notin> set w1" "hd w1 \<notin> set w2" "hd w1 \<noteq> c" "\<not> is_space (hd w1)"
  shows "cnt (kw2_tok w1 w2 c) p s \<le> cnt (kw_tok w2 c) p s"
proof (induction "length s" arbitrary: p s rule: less_induct)
  case less
  have w2s: "\<not> is_space (hd w2)" using w2(2) space_not_word by blast
  note exE = exec_kw2 [OF c w2(1) w2s, of w1]
  note exI = exec_kw [OF c, of w2]
  have failI: "exec_at (kw_tok w2 c) q (x # xs) = None" if "x \<noteq> hd w2" for q x xs
    unfolding exec_None_iff exI using that w2(1) by (cases w2) auto
  have failE: "exec_at (kw2_tok w1 w2 c) q (x # xs) = None" if "x \<noteq> hd w1" for q x xs
    unfolding exec_None_iff exE using that w1(1) by (cases w1) auto
  show ?case
  proof (cases "exec_at (kw2_tok w1 w2 c) p s")
    case (Some m)
    then obtain ws1 ws2 r where s: "s = w1 @ ws1 @ w2 @ ws2 @ c # r" and ws: "ws1 \<noteq> []"
        "\<forall>x\<in>set ws1. is_space x" "\<forall>x\<in>set ws2. is_space x" and m: "m = (Some c, r, None)"
      by (auto simp: exE)
    have lr: "length r < length s" using s by simp
    have cE: "cnt (kw2_tok w1 w2 c) p s = Suc (cnt (kw2_tok w1 w2 c) (Some c) r)"
      using Some m lr by (simp add: cnt_hit)
    have "\<And>x. x \<in> set (w1 @ ws1) \<Longrightarrow> x \<noteq> hd w2"
      using w1(2) ws(2) w2s by auto
    then have "cnt (kw_tok w2 c) p ((w1 @ ws1) @ (w2 @ ws2 @ c # r))
        = cnt (kw_tok w2 c) (prev_after p (w1 @ ws1)) (w2 @ ws2 @ c # r)"
      by (intro cnt_skip failI) 
    moreover have pa: "prev_after p (w1 @ ws1) = Some (last ws1)" using ws(1) by (simp add: prev_after_def)
    moreover have "\<not> word_before (Some (last ws1))"
      using ws(1,2) space_not_word by (simp add: word_before_def)
    moreover have "word_after (w2 @ ws2 @ c # r)" using w2 by (cases w2) (auto simp: word_after_def)
    ultimately have "cnt (kw_tok w2 c) p s = cnt (kw_tok w2 c) (Some (last ws1)) (w2 @ ws2 @ c # r)"
      and "exec_at (kw_tok w2 c) (Some (last ws1)) (w2 @ ws2 @ c # r) = Some (Some c, r, None)"
      unfolding exI using ws(3) by (auto simp: s)
    then have cI: "cnt (kw_tok w2 c) p s = Suc (cnt (kw_tok w2 c) (Some c) r)"
      by (simp add: cnt_hit)
    from less [OF lr, of "Some c"] cE cI show ?thesis by simp
  next
    case None
    show ?thesis
    proof (cases s)
      case Nil
      with None show ?thesis by (simp add: cnt_nil)
    next
      case (Cons x xs)
      have cE: "cnt (kw2_tok w1 w2 c) p s = cnt (kw2_tok w1 w2 c) (Some x) xs"
        using None Cons by (simp add: cnt_fail)
      show ?thesis
      proof (cases "exec_at (kw_tok w2 c) p s")
        case None
        then have "cnt (kw_tok w2 c) p s = cnt (kw_tok w2 c) (Some x) xs"
          using Cons by (simp add: cnt_fail)
        with cE less [of xs "Some x"] Cons show ?thesis by simp
      next
        case (Some m)
        then obtain ws r where s: "s = w2 @ ws @ c # r" and ws: "\<forall>x\<in>set ws. is_space x"
          and m: "m = (Some c, r, None)"
          by (auto simp: exI)
        have lr: "length r < length s" using s by simp
        have cI: "cnt (kw_tok w2 c) p s = Suc (cnt (kw_tok w2 c) (Some c) r)"
          using Some m lr by (simp add: cnt_hit)
        have "\<And>x. x \<in> set (w2 @ ws @ [c]) \<Longrightarrow> x \<noteq> hd w1"
          using w1(3,4,5) ws by auto
        then have "cnt (kw2_tok w1 w2 c) p ((w2 @ ws @ [c]) @ r)
            = cnt (kw2_tok w1 w2 c) (prev_after p (w2 @ ws @ [c])) r"
          by (intro cnt_skip failE)
        then have "cnt (kw2_tok w1 w2 c) p s = cnt (kw2_tok w1 w2 c) (Some c) r"
          by (simp add: s prev_after_def)
        with cI less [OF lr, of "Some c"] show ?thesis by simp
      qed
    qed
  qed
qed

lemma else_if_le_if: "count_matches tok_else_if s \<le> count_matches tok_if s"
  unfolding count_matches_cnt tok_else_if_kw2 tok_kw
  by (rule else_if_le_if_gen) (simp_all add: js_def is_space_def is_word_def)

lemma token_append_mono:
  "cnt tok_if p t \<le> cnt tok_if p (t @ u)"
  "cnt tok_else_if p t \<le> cnt tok_else_if p (t @ u)"
  "cnt tok_for p t \<le> cnt tok_for p (t @ u)"
  "cnt tok_while p t \<le> cnt tok_while p (t @ u)"
  "cnt tok_do p t \<le> cnt tok_do p (t @ u)"
  "cnt tok_case p t \<le> cnt tok_case p (t @ u)"
  "cnt tok_catch p t \<le> cnt tok_catch p (t @ u)"
  "cnt tok_nullish p t \<le> cnt tok_nullish p (t @ u)"
  "cnt tok_optional p t \<le> cnt tok_optional p (t @ u)"
  "cnt tok_and p t \<le> cnt tok_and p (t @ u)"
  "cnt tok_or p t \<le> cnt tok_or p (t @ u)"
  "cnt tok_ternary p t \<le> cnt tok_ternary p (t @ u)"
proof -
  show "cnt tok_if p t \<le> cnt tok_if p (t @ u)" "cnt tok_for p t \<le> cnt tok_for p (t @ u)"
    "cnt tok_while p t \<le> cnt tok_while p (t @ u)" "cnt tok_do p t \<le> cnt tok_do p (t @ u)"
    "cnt tok_catch p t \<le> cnt tok_catch p (t @ u)"
    unfolding tok_kw by (rule kw_append_mono; simp add: js_def is_space_def)+
  show "cnt tok_else_if p t \<le> cnt tok_else_if p (t @ u)"
    unfolding tok_else_if_kw2 by (rule kw2_append_mono) (simp_all add: js_def is_space_def)
  show "cnt tok_case p t \<le> cnt tok_case p (t @ u)"
    unfolding tok_case_kw by (rule kw_sp_append_mono)
  show "cnt tok_nullish p t \<le> cnt tok_nullish p (t @ u)" "cnt tok_optional p t \<le> cnt tok_optional p (t @ u)"
    "cnt tok_and p t \<le> cnt tok_and p (t @ u)" "cnt tok_or p t \<le> cnt tok_or p (t @ u)"
    unfolding tok_nullish_def tok_optional_def tok_and_def tok_or_def lit_lits
    by (rule lits_append_mono; simp add: js_def)+
  show "cnt tok_ternary p t \<le> cnt tok_ternary p (t @ u)" by (rule ternary_append_mono)
qed

lemma append_mono:
  assumes "count_matches tok_for_of t = 0"
  shows "calculateComplexity t \<le> calculateComplexity (t @ u)"
  using assms token_append_mono [of None t u]
  by (simp add: complexity_sum COMPLEXITY_TOKENS_def count_matches_cnt)

subsection \<open>Changing the kind of white space\<close>

lemma map_state_simp [simp]:
  "map_state g (p, s, k) = (map_option g p, map g s, map_option (map g) k)"
  by (simp add: map_state_def)

lemma rest_map_state [simp]: "length (rest (map_state g s)) = length (rest s)"
  by (simp add: map_state_def rest_def)




















subsection \<open>A literal or a comment after clean code\<close>

lemma segs_prev:
  assumes "starts f a"
  shows "segs a p s = segs a q s"
proof -
  have "exec_at a p s = exec_at a q s" using assms unfolding starts_def by blast
  then show ?thesis by (simp add: segs.simps [of a p s] segs.simps [of a q s])
qed

lemma segs_skip:
  assumes "starts f a" and "f \<notin> set w"
  shows "segs a p (w @ r) = map Skip w @ segs a None r"
  using assms(2)
proof (induction w arbitrary: p)
  case Nil
  then show ?case using segs_prev [OF assms(1)] by simp
next
  case (Cons x w)
  then have "exec_at a p (x # w @ r) = None" using assms(1) unfolding starts_def by auto
  then have "segs a p ((x # w) @ r) = Skip x # segs a (Some x) (w @ r)"
    by (simp add: segs.simps [of a p "x # w @ r"])
  with Cons show ?case by simp
qed


lemma replace_nil:
  assumes "starts f a"
  shows "replace_g a rep [] = []"
proof -
  have "exec_at a None [] = None" using assms unfolding starts_def by blast
  then show ?thesis by (simp add: replace_g_def segs.simps [of a None "[]"])
qed

lemma replace_skip:
  assumes "starts f a" and "f \<notin> set w"
  shows "replace_g a rep (w @ r) = w @ replace_g a rep r"
proof -
  have "concat (map (seg_out rep) (map Skip w)) = w" by (induction w) simp_all
  then show ?thesis by (simp add: replace_g_def segs_skip [OF assms])
qed

lemma replace_clean:
  assumes "starts f a" and "f \<notin> set w"
  shows "replace_g a rep w = w"
  using replace_skip [OF assms, of rep "[]"] replace_nil [OF assms(1), of rep] by simp


lemma starts_Seq_Chr: "starts f (Seq (Chr f) K)"
  by (auto simp: starts_def exec_at_def ms_Seq_Chr split: list.splits)

lemma starts_quoted: "starts q (quoted q)"
  unfolding quoted_def by (rule starts_Seq_Chr)

lemma starts_Seq_Seq_Chr: "starts f (Seq (Seq (Chr f) K1) K2)"
proof -
  have "exec_at (Seq (Seq (Chr f) K1) K2) p s = exec_at (Seq (Chr f) (Seq K1 K2)) p s" for p s
    by (simp add: exec_at_def ms_Seq_assoc)
  then show ?thesis using starts_Seq_Chr [of f "Seq K1 K2"] by (simp add: starts_def)
qed

lemma rx_quoted: "rx_template = quoted 96" "rx_single_quoted = quoted 39" "rx_double_quoted = quoted 34"
  by (simp_all add: rx_template_def rx_single_quoted_def rx_double_quoted_def quoted_def seqs_def)

lemma starts_comments: "starts 47 rx_block_comment" "starts 47 rx_line_comment"
  by (simp_all add: rx_block_comment_def rx_line_comment_def seqs_def lit_lits js_def starts_Seq_Seq_Chr)










lemma strip_clean:
  assumes "clean t"
  shows "stripCommentsAndStrings t = t"
proof -
  have t: "96 \<notin> set t" "47 \<notin> set t" "39 \<notin> set t" "34 \<notin> set t"
    using assms by (simp_all add: clean_def)
  show ?thesis
    unfolding stripCommentsAndStrings_def rx_quoted
    by (simp add: replace_clean [OF starts_quoted] replace_clean [OF starts_comments(1)]
        replace_clean [OF starts_comments(2)] t)
qed

lemma clean_append: "clean (t @ u) \<longleftrightarrow> clean t \<and> clean u"
  by (auto simp: clean_def)


section \<open>Facts about the score\<close>

lemmas score_ev = calculateComplexity_def COMPLEXITY_TOKENS_def count_matches_def match_g_def
  tok_defs ev ms.simps segs.simps

lemma ex_for_of: "calculateComplexity (js ''for const x of'') = 2"
  by (simp add: score_ev)

lemma ex_if_open: "calculateComplexity (js ''if ('') = 2"
  by (simp add: score_ev)

lemma ex_for_of_if: "calculateComplexity (js ''for const x of'' @ js ''if ('') = 1"
  by (simp add: score_ev)

lemma ex_else_if: "calculateComplexity (stripCommentsAndStrings (js ''else if (a) {}'')) = 3"
  by (simp add: score_ev strip_defs)

lemma ex_for_of_if_raw:
  "calculateComplexity (stripCommentsAndStrings (js ''for const x of'' @ js ''if ('')) = 1"
  "calculateComplexity (stripCommentsAndStrings (js ''for const x of'')) = 2"
  "calculateComplexity (stripCommentsAndStrings (js ''if ('')) = 2"
proof -
  have "clean (js ''for const x of'' @ js ''if ('')" "clean (js ''for const x of'')" "clean (js ''if ('')"
    by (simp_all add: clean_def js_def)
  then show "calculateComplexity (stripCommentsAndStrings (js ''for const x of'' @ js ''if ('')) = 1"
    "calculateComplexity (stripCommentsAndStrings (js ''for const x of'')) = 2"
    "calculateComplexity (stripCommentsAndStrings (js ''if ('')) = 2"
    by (simp_all only: strip_clean ex_for_of ex_if_open ex_for_of_if)
qed

lemma append_mono_raw:
  assumes "clean t" "clean u" "count_matches tok_for_of t = 0"
  shows "calculateComplexity (stripCommentsAndStrings t)
      \<le> calculateComplexity (stripCommentsAndStrings (t @ u))"
  using assms append_mono [of t u] by (simp add: strip_clean clean_append)

text \<open>
  C8, as stated, fails. The text \<^verbatim>\<open>if (\<close> holds one decision point, the text
  \<^verbatim>\<open>for const x of\<close> scores 2, and the two put together score 1: the word boundary that
  ended the \<^verbatim>\<open>for ... of\<close> header is gone, and so is the one that began the \<^verbatim>\<open>if\<close>.
  Neither text holds a comment or a string, so the scores are the same with and without
  the normalizer.
\<close>

theorem append_can_lower_score:
  "1 < calculateComplexity (js ''if ('')
   \<and> calculateComplexity (js ''for const x of'' @ js ''if ('') < calculateComplexity (js ''for const x of'')
   \<and> 1 < calculateComplexity (stripCommentsAndStrings (js ''if (''))
   \<and> calculateComplexity (stripCommentsAndStrings (js ''for const x of'' @ js ''if (''))
       < calculateComplexity (stripCommentsAndStrings (js ''for const x of''))"
  by (simp only: ex_for_of ex_if_open ex_for_of_if ex_for_of_if_raw) simp

text \<open>
  C8, amended. If the \<^verbatim>\<open>for ... of/in\<close> header pattern has no match in the text \<open>t\<close>
  that the scorer is given, then appending any text \<open>u\<close> never lowers the score: each of
  the twelve other patterns has at least as many matches in \<open>t @ u\<close> as in \<open>t\<close>. For raw
  texts without quotes, backticks and slashes the same holds for the score of the file.
\<close>

theorem append_monotone:
  assumes "count_matches tok_for_of t = 0"
  shows "calculateComplexity t \<le> calculateComplexity (t @ u)
    \<and> (clean t \<and> clean u \<longrightarrow>
         calculateComplexity (stripCommentsAndStrings t)
           \<le> calculateComplexity (stripCommentsAndStrings (t @ u)))"
  using assms append_mono [of t u] append_mono_raw [of t u] by simp

theorem append_monotone_witness:
  "count_matches tok_for_of (js ''if (a) {}'') = 0
   \<and> clean (js ''if (a) {}'') \<and> clean (js '' else if (b) {}'')
   \<and> calculateComplexity (js ''if (a) {}'') \<le> calculateComplexity (js ''if (a) {}'' @ js '' else if (b) {}'')
   \<and> calculateComplexity (stripCommentsAndStrings (js ''if (a) {}''))
       \<le> calculateComplexity (stripCommentsAndStrings (js ''if (a) {}'' @ js '' else if (b) {}''))"
proof -
  have "count_matches tok_for_of (js ''if (a) {}'') = 0"
    by (simp add: score_ev)
  moreover have "clean (js ''if (a) {}'')" "clean (js '' else if (b) {}'')"
    by (simp_all add: clean_def js_def)
  ultimately show ?thesis
    using append_monotone [of "js ''if (a) {}''" "js '' else if (b) {}''"] by simp
qed

text \<open>
  C10. Every match of the \<^verbatim>\<open>else if (\<close> pattern brings a match of the \<^verbatim>\<open>if (\<close> pattern
  with it: there are at least as many of the second as of the first, so each
  \<^verbatim>\<open>else if (\<close> adds 2 to the score. A text with one \<^verbatim>\<open>else if (\<close>, no \<^verbatim>\<open>if (\<close> beyond
  the one inside it and no match of the eleven other patterns scores 3; so does the text
  \<^verbatim>\<open>else if (a) {}\<close>.
\<close>

theorem else_if_counted_twice:
  "count_matches tok_else_if s \<le> count_matches tok_if s
   \<and> 1 + 2 * count_matches tok_else_if s \<le> calculateComplexity s
   \<and> (count_matches tok_else_if s = 1 \<and> count_matches tok_if s \<le> 1
        \<and> (\<forall>p \<in> set (drop 2 COMPLEXITY_TOKENS). count_matches p s = 0)
      \<longrightarrow> calculateComplexity s = 3)
   \<and> calculateComplexity (stripCommentsAndStrings (js ''else if (a) {}'')) = 3"
  using else_if_le_if [of s] ex_else_if by (auto simp: complexity_sum COMPLEXITY_TOKENS_def)

theorem else_if_counted_twice_witness:
  "count_matches tok_else_if (js ''else if (a) {}'') = 1
   \<and> count_matches tok_if (js ''else if (a) {}'') = 1
   \<and> count_matches tok_for (js ''else if (a) {}'') = 0
   \<and> count_matches tok_for_of (js ''else if (a) {}'') = 0
   \<and> count_matches tok_while (js ''else if (a) {}'') = 0
   \<and> count_matches tok_do (js ''else if (a) {}'') = 0
   \<and> count_matches tok_case (js ''else if (a) {}'') = 0
   \<and> count_matches tok_catch (js ''else if (a) {}'') = 0
   \<and> count_matches tok_nullish (js ''else if (a) {}'') = 0
   \<and> count_matches tok_optional (js ''else if (a) {}'') = 0
   \<and> count_matches tok_and (js ''else if (a) {}'') = 0
   \<and> count_matches tok_or (js ''else if (a) {}'') = 0
   \<and> count_matches tok_ternary (js ''else if (a) {}'') = 0
   \<and> calculateComplexity (js ''else if (a) {}'') = 3"
proof -
  have a: "count_matches tok_else_if (js ''else if (a) {}'') = 1"
    by (simp add: score_ev)
  have b: "\<forall>p \<in> set (drop 2 COMPLEXITY_TOKENS). count_matches p (js ''else if (a) {}'') = 0"
    by (simp add: score_ev)
  have c: "count_matches tok_if (js ''else if (a) {}'') = 1"
    by (simp add: score_ev)
  from else_if_counted_twice [of "js ''else if (a) {}''"] a b c show ?thesis
    by (simp add: COMPLEXITY_TOKENS_def)
qed












end
